theory Spec2Isabelle
  imports Complex_Main "HOL-Library.AList" "HOL-Library.Sublist"
begin

section \<open>JavaScript values reaching the engine\<close>

text \<open>
  The engine is the Express server of \<^verbatim>\<open>src/unnamed/part_000\<close> (the variant with
  \<^verbatim>\<open>ensureMikrotik\<close> and one bounded retry). Request bodies are JSON, so the fields
  \<^verbatim>\<open>phone\<close>, \<^verbatim>\<open>amount\<close>, \<^verbatim>\<open>offer\<close>, \<^verbatim>\<open>sender\<close> and \<^verbatim>\<open>message\<close> are what \<^verbatim>\<open>JSON.parse\<close>
  gives: \<^verbatim>\<open>null\<close>, a boolean, a number, a string, an array of such values, or a plain object
  with such values as its own properties; an absent field reads as \<^verbatim>\<open>undefined\<close>. An object
  is represented by the list of its own properties (\<^verbatim>\<open>JSON.parse\<close> defines every key,
  \<^verbatim>\<open>__proto__\<close> included, as an own property); its prototype is \<^verbatim>\<open>Object.prototype\<close>, and
  no value that \<^verbatim>\<open>JSON.parse\<close> gives is callable. Strings are byte lists holding the UTF-8
  encoding of the JavaScript string. A finite Number is represented by the rational it
  denotes (so \<^verbatim>\<open>-0\<close> and \<^verbatim>\<open>0\<close> coincide, as they do under \<^verbatim>\<open>===\<close>, under truthiness and
  when written as a string).
\<close>

datatype jsnum = NaN | PosInf | NegInf | Fin rat

datatype jsval = JUndefined | JNull | JBool bool | JNum jsnum | JStr string
  | JArr "jsval list" | JObj "(string \<times> jsval) list"

text \<open>The exception the conversions and the method calls on these values can throw.\<close>

datatype error = TypeError

text \<open>\<^verbatim>\<open>a === b\<close> on two Numbers: \<^verbatim>\<open>NaN\<close> is unequal to everything, itself included.\<close>

fun num_eq :: "jsnum \<Rightarrow> jsnum \<Rightarrow> bool" where
  "num_eq NaN _ = False"
| "num_eq _ NaN = False"
| "num_eq a b = (a = b)"

text \<open>\<^verbatim>\<open>!v\<close> is true exactly on the falsy values.\<close>

fun truthy :: "jsval \<Rightarrow> bool" where
  "truthy JUndefined = False"
| "truthy JNull = False"
| "truthy (JBool b) = b"
| "truthy (JNum n) = (n \<noteq> NaN \<and> n \<noteq> Fin 0)"
| "truthy (JStr s) = (s \<noteq> [])"
| "truthy (JArr vs) = True"
| "truthy (JObj ps) = True"

subsection \<open>Rounding to a double\<close>

definition pow2 :: "int \<Rightarrow> rat" where
  "pow2 k = (if 0 \<le> k then 2 ^ nat k else 1 / 2 ^ nat (- k))"

fun bit_length :: "nat \<Rightarrow> nat" where
  "bit_length n = (if n = 0 then 0 else Suc (bit_length (n div 2)))"

declare bit_length.simps [simp del]

text \<open>The largest \<open>k\<close> with \<open>2 ^ k \<le> a\<close>, for positive \<open>a\<close>.\<close>

definition floor_log2 :: "rat \<Rightarrow> int" where
  "floor_log2 a =
     (let k = int (bit_length (nat (fst (quotient_of a)))) - int (bit_length (nat (snd (quotient_of a))))
      in if pow2 k \<le> a then k else k - 1)"

text \<open>
  Round to nearest, ties to even, with 53 bits of precision, gradual underflow below
  \<open>2 ^ -1022\<close> and overflow to infinity from \<open>2 ^ 1024\<close>: the Number value of a mathematical
  value. Integers up to \<open>2 ^ 53\<close> in magnitude are exactly representable.
\<close>

definition round_double :: "rat \<Rightarrow> jsnum" where
  "round_double r =
     (if r = of_int \<lfloor>r\<rfloor> \<and> \<bar>r\<bar> \<le> 2 ^ 53 then Fin r
      else let a = \<bar>r\<bar>;
               e = max (floor_log2 a - 52) (- 1074);
               m = a / pow2 e;
               f = \<lfloor>m\<rfloor>;
               d = m - of_int f;
               n = (if 1 / 2 < d \<or> (d = 1 / 2 \<and> odd f) then f + 1 else f);
               v = of_int n * pow2 e
           in if 2 ^ 1024 \<le> v then (if 0 < r then PosInf else NegInf)
              else Fin (if 0 < r then v else - v))"

subsection \<open>Character classes of the regular expressions\<close>

text \<open>\<^verbatim>\<open>\d\<close>\<close>

definition is_digit :: "char \<Rightarrow> bool" where
  "is_digit c = (c \<in> set ''0123456789'')"

text \<open>
  \<^verbatim>\<open>\s\<close> (and the white space trimmed by \<^verbatim>\<open>Number\<close>): the code points
  U+0009..U+000D, U+0020, U+00A0, U+1680, U+2000..U+200A, U+2028, U+2029, U+202F, U+205F,
  U+3000 and U+FEFF, each in its UTF-8 encoding.
\<close>

definition white_space :: "string list" where
  "white_space =
     [[CHR 0x09], [CHR 0x0A], [CHR 0x0B], [CHR 0x0C], [CHR 0x0D], [CHR 0x20],
      [CHR 0xC2, CHR 0xA0], [CHR 0xE1, CHR 0x9A, CHR 0x80],
      [CHR 0xE2, CHR 0x80, CHR 0x80], [CHR 0xE2, CHR 0x80, CHR 0x81],
      [CHR 0xE2, CHR 0x80, CHR 0x82], [CHR 0xE2, CHR 0x80, CHR 0x83],
      [CHR 0xE2, CHR 0x80, CHR 0x84], [CHR 0xE2, CHR 0x80, CHR 0x85],
      [CHR 0xE2, CHR 0x80, CHR 0x86], [CHR 0xE2, CHR 0x80, CHR 0x87],
      [CHR 0xE2, CHR 0x80, CHR 0x88], [CHR 0xE2, CHR 0x80, CHR 0x89],
      [CHR 0xE2, CHR 0x80, CHR 0x8A], [CHR 0xE2, CHR 0x80, CHR 0xA8],
      [CHR 0xE2, CHR 0x80, CHR 0xA9], [CHR 0xE2, CHR 0x80, CHR 0xAF],
      [CHR 0xE2, CHR 0x81, CHR 0x9F], [CHR 0xE3, CHR 0x80, CHR 0x80],
      [CHR 0xEF, CHR 0xBB, CHR 0xBF]]"

text \<open>One white-space code point removed from the front of a string, if there is one.\<close>

definition strip_space :: "string \<Rightarrow> string option" where
  "strip_space s =
     (case List.find (\<lambda>w. take (length w) s = w) white_space of
        None \<Rightarrow> None
      | Some w \<Rightarrow> Some (drop (length w) s))"

subsection \<open>\<^verbatim>\<open>Number(v)\<close>\<close>

text \<open>The value of a digit in bases up to 16.\<close>

definition digit_table :: "(char \<times> nat) list" where
  "digit_table =
     zip ''0123456789abcdefABCDEF''
       [0, 1, 2, 3, 4, 5, 6, 7, 8, 9, 10, 11, 12, 13, 14, 15, 10, 11, 12, 13, 14, 15]"

definition digit_val :: "char \<Rightarrow> nat" where
  "digit_val c = (case map_of digit_table c of None \<Rightarrow> 0 | Some n \<Rightarrow> n)"

definition is_hex_digit :: "char \<Rightarrow> bool" where
  "is_hex_digit c = (c \<in> set ''0123456789abcdefABCDEF'')"

text \<open>The value of a digit string in base \<open>b\<close>.\<close>

definition based_value :: "nat \<Rightarrow> string \<Rightarrow> nat" where
  "based_value b ds = foldl (\<lambda>n c. b * n + digit_val c) 0 ds"

definition pow10 :: "int \<Rightarrow> rat" where
  "pow10 k = (if 0 \<le> k then 10 ^ nat k else 1 / 10 ^ nat (- k))"

fun trim_start_fuel :: "nat \<Rightarrow> string \<Rightarrow> string" where
  "trim_start_fuel 0 s = s"
| "trim_start_fuel (Suc n) s =
     (case strip_space s of None \<Rightarrow> s | Some r \<Rightarrow> trim_start_fuel n r)"

definition strip_space_end :: "string \<Rightarrow> string option" where
  "strip_space_end s =
     (case List.find (\<lambda>w. length w \<le> length s \<and> drop (length s - length w) s = w) white_space of
        None \<Rightarrow> None
      | Some w \<Rightarrow> Some (take (length s - length w) s))"

fun trim_end_fuel :: "nat \<Rightarrow> string \<Rightarrow> string" where
  "trim_end_fuel 0 s = s"
| "trim_end_fuel (Suc n) s =
     (case strip_space_end s of None \<Rightarrow> s | Some r \<Rightarrow> trim_end_fuel n r)"

text \<open>White space removed at both ends; a string has at most \<open>length s\<close> code points.\<close>

definition trim :: "string \<Rightarrow> string" where
  "trim s = trim_end_fuel (length s) (trim_start_fuel (length s) s)"

text \<open>\<^verbatim>\<open>0x\<close>, \<^verbatim>\<open>0o\<close> and \<^verbatim>\<open>0b\<close> literals (no sign).\<close>

definition non_decimal :: "string \<Rightarrow> nat option" where
  "non_decimal s =
     (case s of
        z # x # ds \<Rightarrow>
          if z = CHR ''0'' \<and> ds \<noteq> [] then
            (if x \<in> set ''xX'' \<and> list_all is_hex_digit ds then Some (based_value 16 ds)
             else if x \<in> set ''oO'' \<and> list_all (\<lambda>c. c \<in> set ''01234567'') ds
               then Some (based_value 8 ds)
             else if x \<in> set ''bB'' \<and> list_all (\<lambda>c. c \<in> set ''01'') ds
               then Some (based_value 2 ds)
             else None)
          else None
      | _ \<Rightarrow> None)"

text \<open>The exponent part: nothing, or \<^verbatim>\<open>e\<close>, an optional sign and at least one digit.\<close>

definition exponent_part :: "string \<Rightarrow> int option" where
  "exponent_part s =
     (case s of
        [] \<Rightarrow> Some 0
      | e # t \<Rightarrow>
          if e \<in> set ''eE'' then
            (case t of
               [] \<Rightarrow> None
             | sg # ds \<Rightarrow>
                 if sg = CHR ''-'' then
                   (if ds \<noteq> [] \<and> list_all is_digit ds then Some (- int (based_value 10 ds))
                    else None)
                 else if sg = CHR ''+'' then
                   (if ds \<noteq> [] \<and> list_all is_digit ds then Some (int (based_value 10 ds))
                    else None)
                 else if list_all is_digit t then Some (int (based_value 10 t))
                 else None)
          else None)"

text \<open>
  An unsigned decimal literal: \<^verbatim>\<open>D+ . D* Exp?\<close>, \<^verbatim>\<open>. D+ Exp?\<close> or \<^verbatim>\<open>D+ Exp?\<close>; its
  mathematical value.
\<close>

definition unsigned_decimal :: "string \<Rightarrow> rat option" where
  "unsigned_decimal s =
     (let ip = takeWhile is_digit s;
          r1 = dropWhile is_digit s;
          dot = (r1 \<noteq> [] \<and> hd r1 = CHR ''.'');
          fp = (if dot then takeWhile is_digit (tl r1) else []);
          r2 = (if dot then dropWhile is_digit (tl r1) else r1)
      in if ip = [] \<and> fp = [] then None
         else (case exponent_part r2 of
                 None \<Rightarrow> None
               | Some ex \<Rightarrow>
                   Some (of_nat (based_value 10 (ip @ fp)) * pow10 (ex - int (length fp)))))"

definition str_decimal :: "string \<Rightarrow> jsnum" where
  "str_decimal s =
     (let neg = (s \<noteq> [] \<and> hd s = CHR ''-'');
          u = (if s \<noteq> [] \<and> hd s \<in> set ''+-'' then tl s else s)
      in if u = ''Infinity'' then (if neg then NegInf else PosInf)
         else (case unsigned_decimal u of
                 None \<Rightarrow> NaN
               | Some r \<Rightarrow> round_double (if neg then - r else r)))"

text \<open>\<^verbatim>\<open>Number(s)\<close> for a string \<open>s\<close>.\<close>

definition str_to_number :: "string \<Rightarrow> jsnum" where
  "str_to_number s =
     (let t = trim s
      in if t = [] then Fin 0
         else (case non_decimal t of
                 Some n \<Rightarrow> round_double (of_nat n)
               | None \<Rightarrow> str_decimal t))"

subsection \<open>\<^verbatim>\<open>String(v)\<close>\<close>

text \<open>The decimal digits of a natural number.\<close>

definition digit_char :: "nat \<Rightarrow> char" where
  "digit_char d = ''0123456789'' ! d"

fun decimal :: "nat \<Rightarrow> string" where
  "decimal n = (if n < 10 then [digit_char n] else decimal (n div 10) @ [digit_char (n mod 10)])"

declare decimal.simps [simp del]

text \<open>
  \<^verbatim>\<open>Number::toString(x)\<close> for a positive double \<open>x\<close> looks for integers \<open>n\<close>, \<open>k\<close> and \<open>s\<close>
  with \<open>10 ^ (k - 1) \<le> s < 10 ^ k\<close> such that \<open>s * 10 ^ (n - k)\<close> rounds to \<open>x\<close>, with \<open>k\<close> as
  small as possible and then \<open>s * 10 ^ (n - k)\<close> as close to \<open>x\<close> as possible (an even \<open>s\<close>
  on a tie). With \<open>10 ^ (e - 1) \<le> x < 10 ^ e\<close>, \<open>n\<close> is \<open>e\<close> or \<open>e + 1\<close> and \<open>s\<close> is one of the
  two integers around \<open>x / 10 ^ (n - k)\<close>; seventeen digits are always enough. The
  exponent \<open>e\<close> of a double lies between \<open>-323\<close> and \<open>309\<close>.
\<close>

definition decimal_exponent :: "rat \<Rightarrow> int" where
  "decimal_exponent x =
     (if 1 \<le> x then
        (case List.find (\<lambda>n. x < pow10 n) [1 .. 309] of None \<Rightarrow> 310 | Some n \<Rightarrow> n)
      else
        (case List.find (\<lambda>n. pow10 (n - 1) \<le> x) (rev [- 323 .. 0]) of
           None \<Rightarrow> - 324
         | Some n \<Rightarrow> n))"

definition digit_candidates :: "rat \<Rightarrow> nat \<Rightarrow> (nat \<times> int) list" where
  "digit_candidates x k =
     [(s, n). n \<leftarrow> [decimal_exponent x, decimal_exponent x + 1],
              s \<leftarrow> [nat \<lfloor>x / pow10 (n - int k)\<rfloor>, Suc (nat \<lfloor>x / pow10 (n - int k)\<rfloor>)],
              10 ^ (k - 1) \<le> s \<and> s < 10 ^ k
              \<and> round_double (of_nat s * pow10 (n - int k)) = Fin x]"

definition closer :: "rat \<Rightarrow> nat \<Rightarrow> nat \<times> int \<Rightarrow> nat \<times> int \<Rightarrow> nat \<times> int" where
  "closer x k a b =
     (let da = \<bar>of_nat (fst a) * pow10 (snd a - int k) - x\<bar>;
          db = \<bar>of_nat (fst b) * pow10 (snd b - int k) - x\<bar>
      in if db < da \<or> (db = da \<and> even (fst b)) then b else a)"

text \<open>
  The triple \<open>(s, k, n)\<close>. (A \<open>Fin x\<close> where \<open>x\<close> is not a double denotes no Number; it gets
  its first seventeen digits.)
\<close>

definition shortest_digits :: "rat \<Rightarrow> nat \<times> nat \<times> int" where
  "shortest_digits x =
     (case List.find (\<lambda>k. digit_candidates x k \<noteq> []) [1 ..< 18] of
        None \<Rightarrow> (nat \<lfloor>x / pow10 (decimal_exponent x - 17)\<rfloor>, 17, decimal_exponent x)
      | Some k \<Rightarrow>
          (case digit_candidates x k of
             c # cs \<Rightarrow> (case foldl (closer x k) c cs of (s, n) \<Rightarrow> (s, k, n))
           | [] \<Rightarrow> (0, k, 0)))"

text \<open>
  The digits are then laid out as an integer, with a decimal point, with leading zeros
  after \<^verbatim>\<open>0.\<close>, or in exponent notation.
\<close>

definition positive_to_string :: "rat \<Rightarrow> string" where
  "positive_to_string x =
     (case shortest_digits x of
        (s, k, n) \<Rightarrow>
          let ds = decimal s
          in if int k \<le> n \<and> n \<le> 21 then ds @ replicate (nat (n - int k)) CHR ''0''
             else if 0 < n \<and> n \<le> 21 then take (nat n) ds @ ''.'' @ drop (nat n) ds
             else if - 6 < n \<and> n \<le> 0 then ''0.'' @ replicate (nat (- n)) CHR ''0'' @ ds
             else let ex = (if n < 1 then ''-'' else ''+'') @ decimal (nat \<bar>n - 1\<bar>)
                  in if k = 1 then ds @ ''e'' @ ex
                     else take 1 ds @ ''.'' @ drop 1 ds @ ''e'' @ ex)"

fun number_to_string :: "jsnum \<Rightarrow> string" where
  "number_to_string NaN = ''NaN''"
| "number_to_string PosInf = ''Infinity''"
| "number_to_string NegInf = ''-Infinity''"
| "number_to_string (Fin r) =
     (if r = 0 then ''0'' else if r < 0 then ''-'' @ positive_to_string (- r)
      else positive_to_string r)"

text \<open>
  \<^verbatim>\<open>ToString(v)\<close>, the conversion behind \<^verbatim>\<open>String(v)\<close>, \<^verbatim>\<open>regexp.test(v)\<close> and the property
  key of \<^verbatim>\<open>object[v]\<close>. An array is converted by \<^verbatim>\<open>Array.prototype.join\<close>: its elements
  converted in turn (\<^verbatim>\<open>null\<close> and \<^verbatim>\<open>undefined\<close> to the empty string) with commas between
  them. An object is converted by its \<^verbatim>\<open>toString\<close> method: \<^verbatim>\<open>Object.prototype.toString\<close>,
  which answers \<^verbatim>\<open>[object Object]\<close>, unless the object has an own property of that name.
  Such a property is not callable; \<^verbatim>\<open>valueOf\<close> (an own property that is not callable, or
  \<^verbatim>\<open>Object.prototype.valueOf\<close>, which returns the object itself) gives no primitive
  either, and the conversion throws a \<^verbatim>\<open>TypeError\<close>.
\<close>

fun to_string :: "jsval \<Rightarrow> error + string"
  and join :: "jsval list \<Rightarrow> error + string" where
  "to_string JUndefined = Inr ''undefined''"
| "to_string JNull = Inr ''null''"
| "to_string (JBool b) = Inr (if b then ''true'' else ''false'')"
| "to_string (JNum n) = Inr (number_to_string n)"
| "to_string (JStr s) = Inr s"
| "to_string (JArr vs) = join vs"
| "to_string (JObj ps) =
     (if ''toString'' \<in> fst ` set ps then Inl TypeError else Inr ''[object Object]'')"
| "join [] = Inr []"
| "join (v # vs) =
     (case (if v = JUndefined \<or> v = JNull then Inr [] else to_string v) of
        Inl e \<Rightarrow> Inl e
      | Inr s \<Rightarrow>
          if vs = [] then Inr s
          else (case join vs of Inl e \<Rightarrow> Inl e | Inr r \<Rightarrow> Inr (s @ '','' @ r)))"

text \<open>
  \<^verbatim>\<open>Number(v)\<close>. An array or an object is first converted to a primitive, which for these
  values is the string above (their \<^verbatim>\<open>valueOf\<close> gives no primitive), or throws as above.
\<close>

fun js_Number :: "jsval \<Rightarrow> error + jsnum" where
  "js_Number JUndefined = Inr NaN"
| "js_Number JNull = Inr (Fin 0)"
| "js_Number (JBool b) = Inr (Fin (if b then 1 else 0))"
| "js_Number (JNum n) = Inr n"
| "js_Number (JStr s) = Inr (str_to_number s)"
| "js_Number v = (case to_string v of Inl e \<Rightarrow> Inl e | Inr s \<Rightarrow> Inr (str_to_number s))"

section \<open>Utilities and message parsing\<close>

text \<open>
  \<^verbatim>\<open>normalizePhone(phone)\<close> is \<^verbatim>\<open>phone.replace(/\D/g, '').slice(-9)\<close>: every non-digit is
  removed and the last nine characters are kept (all of them when there are fewer).
\<close>

definition normalizePhone :: "string \<Rightarrow> string" where
  "normalizePhone phone = (let d = filter is_digit phone in drop (length d - 9) d)"

subsection \<open>The sender filter \<^verbatim>\<open>/mvola/i\<close>\<close>

fun mvola_here :: "string \<Rightarrow> bool" where
  "mvola_here (c1 # c2 # c3 # c4 # c5 # _) =
     (c1 \<in> set ''mM'' \<and> c2 \<in> set ''vV'' \<and> c3 \<in> set ''oO'' \<and> c4 \<in> set ''lL'' \<and> c5 \<in> set ''aA'')"
| "mvola_here _ = False"

fun mvola_in :: "string \<Rightarrow> bool" where
  "mvola_in [] = False"
| "mvola_in (c # cs) = (mvola_here (c # cs) \<or> mvola_in cs)"

text \<open>
  \<^verbatim>\<open>/mvola/i.test(sender)\<close> converts \<^verbatim>\<open>sender\<close> to a string first, which can throw.
\<close>

definition test_mvola :: "jsval \<Rightarrow> error + bool" where
  "test_mvola sender = (case to_string sender of Inl e \<Rightarrow> Inl e | Inr s \<Rightarrow> Inr (mvola_in s))"

subsection \<open>The amount pattern \<^verbatim>\<open>/(\d{1,3}(?:[ ,]\d{3})*|\d+)\s?Ar/i\<close>\<close>

text \<open>\<^verbatim>\<open>Ar\<close> at the head of the string, in either case.\<close>

fun ar_here :: "string \<Rightarrow> bool" where
  "ar_here (a # r # _) = (a \<in> set ''aA'' \<and> r \<in> set ''rR'')"
| "ar_here _ = False"

text \<open>
  \<^verbatim>\<open>\s?Ar\<close> at the head of the string: the optional white space is tried first, and
  given up when \<^verbatim>\<open>Ar\<close> does not follow it.
\<close>

definition tail_ar :: "string \<Rightarrow> bool" where
  "tail_ar s = ((case strip_space s of None \<Rightarrow> False | Some r \<Rightarrow> ar_here r) \<or> ar_here s)"

text \<open>The number of repetitions of \<^verbatim>\<open>[ ,]\d{3}\<close> at the head of the string.\<close>

fun groups :: "string \<Rightarrow> nat" where
  "groups (c # d1 # d2 # d3 # s) =
     (if c \<in> set '' ,'' \<and> is_digit d1 \<and> is_digit d2 \<and> is_digit d3 then Suc (groups s) else 0)"
| "groups _ = 0"

text \<open>
  The lengths the first alternative \<^verbatim>\<open>\d{1,3}(?:[ ,]\d{3})*\<close> can take at the head of the
  string, in the order the backtracking matcher tries them: three, two, one leading digits,
  each with as many groups as possible first.
\<close>

definition alt1_lengths :: "string \<Rightarrow> nat list" where
  "alt1_lengths s =
     concat (map (\<lambda>n. map (\<lambda>k. n + 4 * k) (rev [0..<Suc (groups (drop n s))]))
       (filter (\<lambda>n. n \<le> length (takeWhile is_digit s)) [3, 2, 1]))"

text \<open>The lengths of the second alternative \<^verbatim>\<open>\d+\<close>, longest first.\<close>

definition alt2_lengths :: "string \<Rightarrow> nat list" where
  "alt2_lengths s = rev [1..<Suc (length (takeWhile is_digit s))]"

text \<open>A match starting at the head of the string: the text of group 1.\<close>

definition amount_here :: "string \<Rightarrow> string option" where
  "amount_here s =
     (case List.find (\<lambda>l. tail_ar (drop l s)) (alt1_lengths s @ alt2_lengths s) of
        None \<Rightarrow> None
      | Some l \<Rightarrow> Some (take l s))"

text \<open>\<^verbatim>\<open>message.match(...)\<close>: the leftmost match; the result is group 1.\<close>

fun amountMatch :: "string \<Rightarrow> string option" where
  "amountMatch [] = None"
| "amountMatch (c # cs) =
     (case amount_here (c # cs) of Some g \<Rightarrow> Some g | None \<Rightarrow> amountMatch cs)"

text \<open>\<^verbatim>\<open>Number(amountMatch[1].replace(/[ ,\.]/g, ''))\<close>\<close>

definition amount_of_group :: "string \<Rightarrow> jsnum" where
  "amount_of_group g = str_to_number (filter (\<lambda>c. c \<notin> set '' ,.'') g)"

subsection \<open>The phone pattern \<^verbatim>\<open>/\((0\d{9,10})\)/\<close>\<close>

text \<open>
  After \<^verbatim>\<open>(0\<close>, ten digits are tried before nine, and the closing parenthesis must
  follow.
\<close>

definition phone_here :: "string \<Rightarrow> string option" where
  "phone_here s =
     (case s of
        p # z # r \<Rightarrow>
          if p = CHR ''('' \<and> z = CHR ''0'' then
            (case List.find (\<lambda>n. n \<le> length (takeWhile is_digit r) \<and> take 1 (drop n r) = '')'')
                    [10, 9] of
               None \<Rightarrow> None
             | Some n \<Rightarrow> Some (z # take n r))
          else None
      | _ \<Rightarrow> None)"

fun phoneMatch :: "string \<Rightarrow> string option" where
  "phoneMatch [] = None"
| "phoneMatch (c # cs) =
     (case phone_here (c # cs) of Some g \<Rightarrow> Some g | None \<Rightarrow> phoneMatch cs)"

section \<open>The engine state\<close>

datatype status = PENDING | CONFIRMED

record payment =
  phone :: string
  amount :: jsnum
  offer :: jsval
  ref :: string
  status :: status
  createdAt :: int

record voucher =
  username :: string
  password :: string

text \<open>
  The value of \<^verbatim>\<open>profileMap[payment.offer]\<close> when it is truthy: a profile name of the
  map, or a member that the object literal inherits from \<^verbatim>\<open>Object.prototype\<close> (a function,
  or the prototype itself for \<^verbatim>\<open>__proto__\<close>).
\<close>

datatype profile = Profile string | Inherited string

text \<open>A create-user command \<^verbatim>\<open>/ip/hotspot/user/add\<close> with its name, password and profile.\<close>

datatype command = AddUser string string profile

text \<open>
  \<^verbatim>\<open>pendingPayments\<close> and \<^verbatim>\<open>vouchers\<close> are objects keyed by session id: association lists
  in insertion order, which is the order of \<^verbatim>\<open>Object.keys\<close> for keys that are not array
  indices (a UUID never is). Assignment is \<^const>\<open>AList.update\<close> (an existing key keeps its
  place, a new key goes last) and \<^verbatim>\<open>delete\<close> is \<^const>\<open>AList.delete\<close>. The fields
  \<open>connects\<close> and \<open>writes\<close> record what has been sent to the controller: the number of
  \<^verbatim>\<open>mikrotik.connect()\<close> calls and the commands given to \<^verbatim>\<open>mikrotik.write\<close>, oldest first.
\<close>

record state =
  pendingPayments :: "(string \<times> payment) list"
  vouchers :: "(string \<times> voucher) list"
  mikrotikReady :: bool
  reconnecting :: bool
  connects :: nat
  writes :: "command list"

definition initial :: state where
  "initial = \<lparr>pendingPayments = [], vouchers = [], mikrotikReady = False, reconnecting = False,
     connects = 0, writes = []\<rparr>"

text \<open>
  What a handler does with its request: a status 200, the 400 of \<^verbatim>\<open>/ussd/init\<close>, the
  JSON answer of a created session, or an exception that it does not catch, so that the
  handler itself sends no answer. (Express answers 500 for the synchronous handler of
  \<^verbatim>\<open>/ussd/init\<close>; the promise of the \<^verbatim>\<open>async\<close> handler of \<^verbatim>\<open>/sms/incoming\<close> is rejected with
  nobody to handle it, and what Node does then is not part of the model: the server is
  taken to go on.)
\<close>

datatype reply = Status200 | BadRequest | Created string string | Uncaught

section \<open>Session creation: \<^verbatim>\<open>POST /ussd/init\<close>\<close>

text \<open>
  The session id, the reference and the clock reading come from \<^verbatim>\<open>uuidv4()\<close>,
  \<^verbatim>\<open>generateRef()\<close> and \<^verbatim>\<open>Date.now()\<close>; they are arguments here. A truthy \<^verbatim>\<open>phone\<close>
  that is not a string has no \<^verbatim>\<open>replace\<close> method (for an object, an own property of that
  name is not callable), so \<^verbatim>\<open>normalizePhone\<close> throws; after it, \<^verbatim>\<open>Number(amount)\<close> can
  throw.
\<close>

definition ussd_init ::
  "jsval \<Rightarrow> jsval \<Rightarrow> jsval \<Rightarrow> string \<Rightarrow> string \<Rightarrow> int \<Rightarrow> state \<Rightarrow> reply \<times> state" where
  "ussd_init ph amt off sessionId rf now st =
     (if \<not> truthy ph \<or> \<not> truthy amt \<or> \<not> truthy off then (BadRequest, st)
      else (case ph of
              JStr p \<Rightarrow>
                (case js_Number amt of
                   Inl e \<Rightarrow> (Uncaught, st)
                 | Inr n \<Rightarrow>
                     (Created sessionId rf,
                      st\<lparr>pendingPayments :=
                           AList.update sessionId
                             \<lparr>phone = normalizePhone p, amount = n, offer = off,
                              ref = rf, status = PENDING, createdAt = now\<rparr>
                             (pendingPayments st)\<rparr>))
            | _ \<Rightarrow> (Uncaught, st)))"

section \<open>The connection manager\<close>

definition safeDisconnect :: "state \<Rightarrow> state" where
  "safeDisconnect st = st\<lparr>mikrotikReady := False\<rparr>"

text \<open>
  \<^verbatim>\<open>connectMikrotik\<close> up to its \<^verbatim>\<open>await\<close>: \<open>None\<close> when it returns at once because the
  connection is ready or an attempt is in flight, otherwise the state in which the guard
  flag is set and \<^verbatim>\<open>mikrotik.connect()\<close> has been called.
\<close>

definition connect_begin :: "state \<Rightarrow> state option" where
  "connect_begin st =
     (if mikrotikReady st \<or> reconnecting st then None
      else Some (st\<lparr>reconnecting := True, connects := Suc (connects st)\<rparr>))"

text \<open>
  \<^verbatim>\<open>connectMikrotik\<close> after its \<^verbatim>\<open>await\<close>, when \<^verbatim>\<open>mikrotik.connect()\<close> has resolved
  (\<open>ok\<close>) or rejected: the \<^verbatim>\<open>try\<close> or the \<^verbatim>\<open>catch\<close> branch, then \<^verbatim>\<open>finally\<close>.
\<close>

definition connect_end :: "bool \<Rightarrow> state \<Rightarrow> state" where
  "connect_end ok st = st\<lparr>mikrotikReady := ok, reconnecting := False\<rparr>"

text \<open>\<^verbatim>\<open>connectMikrotik\<close> run without interruption; \<open>ok\<close> is the outcome of the connect.\<close>

definition connectMikrotik :: "bool \<Rightarrow> state \<Rightarrow> state" where
  "connectMikrotik ok st =
     (case connect_begin st of None \<Rightarrow> st | Some st1 \<Rightarrow> connect_end ok st1)"

text \<open>
  \<^verbatim>\<open>ensureMikrotik\<close> run without interruption: \<open>True\<close> when it returns, \<open>False\<close> when it
  throws \<^verbatim>\<open>MikroTik non disponible\<close>.
\<close>

definition ensureMikrotik :: "bool \<Rightarrow> state \<Rightarrow> bool \<times> state" where
  "ensureMikrotik ok st =
     (let st1 = (if \<not> mikrotikReady st then connectMikrotik ok st else st)
      in (mikrotikReady st1, st1))"

section \<open>Voucher issuance\<close>

text \<open>
  The outcomes of the device operations a single issuance can perform, in order: the
  connect of the first \<^verbatim>\<open>ensureMikrotik\<close>, the first write, the connect of the second
  \<^verbatim>\<open>ensureMikrotik\<close>, the second write. An outcome is read only if its operation is reached.
\<close>

record io =
  connect1 :: bool
  write1 :: bool
  connect2 :: bool
  write2 :: bool

definition send :: "command \<Rightarrow> state \<Rightarrow> state" where
  "send c st = st\<lparr>writes := writes st @ [c]\<rparr>"

text \<open>
  \<^verbatim>\<open>generateVoucher(profileName)\<close> run without interruption. \<open>u\<close> and \<open>pw\<close> are the two
  strings drawn from \<^verbatim>\<open>Math.random()\<close>. The result is the voucher, or \<open>None\<close> when an
  exception leaves the function.
\<close>

definition generateVoucher ::
  "io \<Rightarrow> string \<Rightarrow> string \<Rightarrow> profile \<Rightarrow> state \<Rightarrow> voucher option \<times> state" where
  "generateVoucher x u pw profileName st =
     (case ensureMikrotik (connect1 x) st of
        (False, st1) \<Rightarrow> (None, st1)
      | (True, st1) \<Rightarrow>
          let user = ''SD-'' @ u;
              cmd = AddUser user pw profileName;
              v = \<lparr>username = user, password = pw\<rparr>;
              st2 = send cmd st1
          in if write1 x then (Some v, st2)
             else (case ensureMikrotik (connect2 x) (safeDisconnect st2) of
                     (False, st3) \<Rightarrow> (None, st3)
                   | (True, st3) \<Rightarrow>
                       let st4 = send cmd st3
                       in if write2 x then (Some v, st4) else (None, st4)))"

section \<open>Confirmation matching: \<^verbatim>\<open>POST /sms/incoming\<close>\<close>

text \<open>The test of the \<^verbatim>\<open>find\<close> callback on one payment.\<close>

definition matches :: "jsnum \<Rightarrow> string \<Rightarrow> payment \<Rightarrow> bool" where
  "matches amt smsPhone p = (status p = PENDING \<and> num_eq (amount p) amt \<and> phone p = smsPhone)"

text \<open>\<^verbatim>\<open>Object.keys(pendingPayments).find(id => ...)\<close>: the first key whose payment passes.\<close>

definition find_session :: "(string \<times> payment) list \<Rightarrow> jsnum \<Rightarrow> string \<Rightarrow> string option" where
  "find_session reg amt smsPhone =
     List.find (\<lambda>sid. case map_of reg sid of None \<Rightarrow> False | Some p \<Rightarrow> matches amt smsPhone p)
       (map fst reg)"

definition profileMap :: "(string \<times> string) list" where
  "profileMap = [(''1h'', ''1Heure''), (''5h'', ''5Heures''), (''24h'', ''24Heures'')]"

text \<open>The property names every object literal inherits from \<^verbatim>\<open>Object.prototype\<close>.\<close>

definition object_prototype_keys :: "string list" where
  "object_prototype_keys =
     [''constructor'', ''__defineGetter__'', ''__defineSetter__'', ''hasOwnProperty'',
      ''__lookupGetter__'', ''__lookupSetter__'', ''isPrototypeOf'', ''propertyIsEnumerable'',
      ''toString'', ''valueOf'', ''__proto__'', ''toLocaleString'']"

text \<open>
  \<^verbatim>\<open>profileMap[payment.offer]\<close>, with \<open>None\<close> for \<^verbatim>\<open>undefined\<close>. The offer is converted to
  a property key, its string, which can throw; the key is looked up in the map and then
  in its prototype.
\<close>

definition profile_of :: "jsval \<Rightarrow> error + profile option" where
  "profile_of v =
     (case to_string v of
        Inl e \<Rightarrow> Inl e
      | Inr key \<Rightarrow>
          Inr (case map_of profileMap key of
                 Some n \<Rightarrow> Some (Profile n)
               | None \<Rightarrow> if key \<in> set object_prototype_keys then Some (Inherited key) else None))"

text \<open>
  The handler from its first line to the selection of the session: \<open>Inl r\<close> when it has
  answered \<open>r\<close> before selecting one (or thrown), \<open>Inr sessionId\<close> when a session is
  selected. A truthy \<^verbatim>\<open>message\<close> that is not a string has no \<^verbatim>\<open>match\<close> method (for an
  object, an own property of that name is not callable).
\<close>

definition select_session :: "jsval \<Rightarrow> jsval \<Rightarrow> state \<Rightarrow> reply + string" where
  "select_session sender message st =
     (if \<not> truthy sender \<or> \<not> truthy message then Inl Status200
      else (case test_mvola sender of
              Inl e \<Rightarrow> Inl Uncaught
            | Inr False \<Rightarrow> Inl Status200
            | Inr True \<Rightarrow>
                (case message of
                   JStr msg \<Rightarrow>
                     (case amountMatch msg of
                        None \<Rightarrow> Inl Status200
                      | Some g \<Rightarrow>
                          (case phoneMatch msg of
                             None \<Rightarrow> Inl Status200
                           | Some pm \<Rightarrow>
                               (case find_session (pendingPayments st) (amount_of_group g)
                                       (normalizePhone pm) of
                                  None \<Rightarrow> Inl Status200
                                | Some sessionId \<Rightarrow>
                                    if sessionId = [] then Inl Status200 else Inr sessionId)))
                 | _ \<Rightarrow> Inl Uncaught)))"

text \<open>\<^verbatim>\<open>payment.status = 'CONFIRMED'\<close> on the payment object held by the registry.\<close>

definition confirm :: "string \<Rightarrow> state \<Rightarrow> state" where
  "confirm sessionId st =
     st\<lparr>pendingPayments :=
          AList.map_entry sessionId (\<lambda>p. p\<lparr>status := CONFIRMED\<rparr>) (pendingPayments st)\<rparr>"

text \<open>
  The end of the handler: \<^verbatim>\<open>vouchers[sessionId] = voucher\<close> when \<^verbatim>\<open>generateVoucher\<close>
  returned, nothing when it threw, and in both cases the \<^verbatim>\<open>finally\<close> block.
\<close>

definition settle :: "string \<Rightarrow> voucher option \<Rightarrow> state \<Rightarrow> state" where
  "settle sessionId r st =
     (let st1 = (case r of
                   None \<Rightarrow> st
                 | Some v \<Rightarrow> st\<lparr>vouchers := AList.update sessionId v (vouchers st)\<rparr>)
      in st1\<lparr>pendingPayments := AList.delete sessionId (pendingPayments st1)\<rparr>)"

text \<open>The whole handler, run without interruption.\<close>

definition sms_incoming ::
  "io \<Rightarrow> jsval \<Rightarrow> jsval \<Rightarrow> string \<Rightarrow> string \<Rightarrow> state \<Rightarrow> reply \<times> state" where
  "sms_incoming x sender message u pw st =
     (case select_session sender message st of
        Inl r \<Rightarrow> (r, st)
      | Inr sessionId \<Rightarrow>
          (case map_of (pendingPayments st) sessionId of
             None \<Rightarrow> (Uncaught, st)
           | Some payment \<Rightarrow>
               let st1 = confirm sessionId st
               in (case profile_of (offer payment) of
                     Inl e \<Rightarrow> (Uncaught, st1)
                   | Inr None \<Rightarrow> (Status200, st1)
                   | Inr (Some profile) \<Rightarrow>
                       (case generateVoucher x u pw profile st1 of
                          (r, st2) \<Rightarrow> (Status200, settle sessionId r st2)))))"

section \<open>The expiry sweeper\<close>

text \<open>The body of the \<^verbatim>\<open>for (const id in pendingPayments)\<close> loop for one key.\<close>

definition expire :: "int \<Rightarrow> string \<Rightarrow> (string \<times> payment) list \<Rightarrow> (string \<times> payment) list" where
  "expire now sid reg =
     (case map_of reg sid of
        None \<Rightarrow> reg
      | Some p \<Rightarrow> if now - createdAt p > 7 * 60 * 1000 then AList.delete sid reg else reg)"

text \<open>
  One tick of the \<^verbatim>\<open>setInterval\<close> callback; \<open>now\<close> is its \<^verbatim>\<open>Date.now()\<close>. The loop
  visits the keys the object has when the tick starts.
\<close>

definition sweep :: "int \<Rightarrow> state \<Rightarrow> state" where
  "sweep now st =
     st\<lparr>pendingPayments := List.fold (expire now) (map fst (pendingPayments st)) (pendingPayments st)\<rparr>"

section \<open>Interleaved execution\<close>

text \<open>
  The handlers are \<^verbatim>\<open>async\<close>: one runs until it awaits \<^verbatim>\<open>mikrotik.connect()\<close> or
  \<^verbatim>\<open>mikrotik.write(...)\<close>, and other requests, timers and events run before it is resumed.
  An \<^verbatim>\<open>await\<close> of a promise that is already settled (after \<^verbatim>\<open>connectMikrotik\<close> returned at
  once, say) lets no request, timer or device event in, so the handler is taken to run on
  from there. The points at which an issuance can be suspended:
\<close>

datatype stage = AwaitConnect1 | AwaitWrite1 | AwaitConnect2 | AwaitWrite2

datatype progress = Await stage | Finished "voucher option"

definition voucher_of :: "command \<Rightarrow> voucher" where
  "voucher_of c = (case c of AddUser user pw _ \<Rightarrow> \<lparr>username = user, password = pw\<rparr>)"

text \<open>
  \<^verbatim>\<open>ensureMikrotik\<close> up to the \<^verbatim>\<open>await\<close> inside \<^verbatim>\<open>connectMikrotik\<close>: it has returned
  (\<open>Inl True\<close>), thrown (\<open>Inl False\<close>), or is waiting for the connect it started.
\<close>

definition ensure_begin :: "state \<Rightarrow> bool + state" where
  "ensure_begin st =
     (if \<not> mikrotikReady st then
        (case connect_begin st of None \<Rightarrow> Inl (mikrotikReady st) | Some st1 \<Rightarrow> Inr st1)
      else Inl True)"

text \<open>\<^verbatim>\<open>generateVoucher\<close> from its start to its first suspension.\<close>

definition issue_begin :: "command \<Rightarrow> state \<Rightarrow> progress \<times> state" where
  "issue_begin c st =
     (case ensure_begin st of
        Inl False \<Rightarrow> (Finished None, st)
      | Inl True \<Rightarrow> (Await AwaitWrite1, send c st)
      | Inr st1 \<Rightarrow> (Await AwaitConnect1, st1))"

text \<open>
  \<^verbatim>\<open>generateVoucher\<close> from the settlement of the operation it awaits (\<open>ok\<close> when the
  promise resolved) to its next suspension or its end.
\<close>

definition issue_resume :: "bool \<Rightarrow> stage \<Rightarrow> command \<Rightarrow> state \<Rightarrow> progress \<times> state" where
  "issue_resume ok sg c st =
     (case sg of
        AwaitConnect1 \<Rightarrow>
          (let st1 = connect_end ok st
           in if mikrotikReady st1 then (Await AwaitWrite1, send c st1) else (Finished None, st1))
      | AwaitWrite1 \<Rightarrow>
          if ok then (Finished (Some (voucher_of c)), st)
          else (let st1 = safeDisconnect st
                in case ensure_begin st1 of
                     Inl False \<Rightarrow> (Finished None, st1)
                   | Inl True \<Rightarrow> (Await AwaitWrite2, send c st1)
                   | Inr st2 \<Rightarrow> (Await AwaitConnect2, st2))
      | AwaitConnect2 \<Rightarrow>
          (let st1 = connect_end ok st
           in if mikrotikReady st1 then (Await AwaitWrite2, send c st1) else (Finished None, st1))
      | AwaitWrite2 \<Rightarrow> (Finished (if ok then Some (voucher_of c) else None), st))"

text \<open>A suspended \<^verbatim>\<open>/sms/incoming\<close> handler: its session, its command and where it waits.\<close>

record issuance =
  session :: string
  cmd :: command
  stage :: stage

text \<open>
  The server between two events: the variables of the program, the suspended handlers,
  the number of \<^verbatim>\<open>connectMikrotik\<close> calls made outside a handler (at start-up or by a
  timer) that wait for their connect, and the number of reconnection timers set.
\<close>

record runtime =
  core :: state
  issuances :: "issuance list"
  bare :: nat
  timers :: nat

definition boot :: runtime where
  "boot = \<lparr>core = initial, issuances = [], bare = 0, timers = 0\<rparr>"

datatype event =
    Listen
  | UssdInit jsval jsval jsval string string int
  | SmsIncoming jsval jsval string string
  | ConnectSettled "nat option" bool
  | WriteSettled nat bool
  | MikrotikError
  | TimerFired
  | SweepTick int

text \<open>A call of \<^verbatim>\<open>connectMikrotik()\<close> whose promise nobody awaits.\<close>

definition bare_connect :: "runtime \<Rightarrow> runtime" where
  "bare_connect rt =
     (case connect_begin (core rt) of
        None \<Rightarrow> rt
      | Some st1 \<Rightarrow> rt\<lparr>core := st1, bare := Suc (bare rt)\<rparr>)"

text \<open>The handler of a confirmation up to its first suspension.\<close>

definition sms_begin :: "jsval \<Rightarrow> jsval \<Rightarrow> string \<Rightarrow> string \<Rightarrow> runtime \<Rightarrow> runtime" where
  "sms_begin sender message u pw rt =
     (case select_session sender message (core rt) of
        Inl r \<Rightarrow> rt
      | Inr sessionId \<Rightarrow>
          (case map_of (pendingPayments (core rt)) sessionId of
             None \<Rightarrow> rt
           | Some payment \<Rightarrow>
               let st1 = confirm sessionId (core rt)
               in (case profile_of (offer payment) of
                     Inl e \<Rightarrow> rt\<lparr>core := st1\<rparr>
                   | Inr None \<Rightarrow> rt\<lparr>core := st1\<rparr>
                   | Inr (Some profile) \<Rightarrow>
                       let c = AddUser (''SD-'' @ u) pw profile
                       in (case issue_begin c st1 of
                             (Finished r, st2) \<Rightarrow> rt\<lparr>core := settle sessionId r st2\<rparr>
                           | (Await sg, st2) \<Rightarrow>
                               rt\<lparr>core := st2,
                                  issuances := issuances rt @
                                    [\<lparr>session = sessionId, cmd = c, stage = sg\<rparr>]\<rparr>))))"

text \<open>The \<open>i\<close>-th suspended handler resumed after its awaited operation settled.\<close>

definition resume :: "nat \<Rightarrow> bool \<Rightarrow> runtime \<Rightarrow> runtime" where
  "resume i ok rt =
     (let t = issuances rt ! i
      in case issue_resume ok (stage t) (cmd t) (core rt) of
           (Await sg, st1) \<Rightarrow>
             rt\<lparr>core := st1,
                issuances := take i (issuances rt) @ t\<lparr>stage := sg\<rparr> # drop (Suc i) (issuances rt)\<rparr>
         | (Finished r, st1) \<Rightarrow>
             rt\<lparr>core := settle (session t) r st1,
                issuances := take i (issuances rt) @ drop (Suc i) (issuances rt)\<rparr>)"

definition awaits_connect :: "issuance \<Rightarrow> bool" where
  "awaits_connect t = (stage t = AwaitConnect1 \<or> stage t = AwaitConnect2)"

text \<open>
  One event. A settlement names the waiting party: \<open>Some i\<close> for the \<open>i\<close>-th suspended
  handler, \<open>None\<close> for a connect made outside a handler; a settlement for a party that is
  not waiting for it does not occur and leaves the server as it is.
\<close>

fun step :: "event \<Rightarrow> runtime \<Rightarrow> runtime" where
  "step Listen rt = bare_connect rt"
| "step (UssdInit ph amt off sessionId rf now) rt =
     rt\<lparr>core := snd (ussd_init ph amt off sessionId rf now (core rt))\<rparr>"
| "step (SmsIncoming sender message u pw) rt = sms_begin sender message u pw rt"
| "step (ConnectSettled None ok) rt =
     (if bare rt = 0 then rt else rt\<lparr>core := connect_end ok (core rt), bare := bare rt - 1\<rparr>)"
| "step (ConnectSettled (Some i) ok) rt =
     (if i < length (issuances rt) \<and> awaits_connect (issuances rt ! i) then resume i ok rt
      else rt)"
| "step (WriteSettled i ok) rt =
     (if i < length (issuances rt) \<and> \<not> awaits_connect (issuances rt ! i) then resume i ok rt
      else rt)"
| "step MikrotikError rt =
     (let rt1 = rt\<lparr>core := safeDisconnect (core rt)\<rparr>
      in if reconnecting (core rt1) then rt1 else rt1\<lparr>timers := Suc (timers rt1)\<rparr>)"
| "step TimerFired rt =
     (if timers rt = 0 then rt else bare_connect (rt\<lparr>timers := timers rt - 1\<rparr>))"
| "step (SweepTick now) rt = rt\<lparr>core := sweep now (core rt)\<rparr>"

text \<open>A sequence of events, first to last.\<close>

definition run :: "event list \<Rightarrow> runtime \<Rightarrow> runtime" where
  "run evs rt = List.fold step evs rt"

text \<open>The session an event selects and marks \<^verbatim>\<open>CONFIRMED\<close>, if it does.\<close>

fun consumed :: "event \<Rightarrow> runtime \<Rightarrow> string option" where
  "consumed (SmsIncoming sender message u pw) rt =
     (case select_session sender message (core rt) of Inl r \<Rightarrow> None | Inr sessionId \<Rightarrow> Some sessionId)"
| "consumed _ rt = None"

text \<open>The sessions consumed along a sequence of events, in order.\<close>

fun consumptions :: "event list \<Rightarrow> runtime \<Rightarrow> string list" where
  "consumptions [] rt = []"
| "consumptions (ev # evs) rt =
     (case consumed ev rt of None \<Rightarrow> [] | Some sessionId \<Rightarrow> [sessionId])
       @ consumptions evs (step ev rt)"

text \<open>The connection attempts in flight: the awaited \<^verbatim>\<open>mikrotik.connect()\<close> calls.\<close>

definition in_flight :: "runtime \<Rightarrow> nat" where
  "in_flight rt = bare rt + length (filter awaits_connect (issuances rt))"

section \<open>Notions used to state the properties\<close>

text \<open>
  The values that have no primitive value: an object with an own property \<^verbatim>\<open>toString\<close>,
  or an array with such a value among its elements.
\<close>

fun no_primitive :: "jsval \<Rightarrow> bool" where
  "no_primitive (JObj ps) = (''toString'' \<in> fst ` set ps)"
| "no_primitive (JArr vs) = (\<exists>v \<in> set vs. no_primitive v)"
| "no_primitive _ = False"

text \<open>
  The pair a confirmation is matched on: the parsed amount and the normalised phone of a
  notification that passes the sender filter and both patterns.
\<close>

definition parse_confirmation :: "jsval \<Rightarrow> jsval \<Rightarrow> (jsnum \<times> string) option" where
  "parse_confirmation sender message =
     (if truthy sender \<and> test_mvola sender = Inr True then
        (case message of
           JStr msg \<Rightarrow>
             (case (amountMatch msg, phoneMatch msg) of
                (Some g, Some pm) \<Rightarrow> Some (amount_of_group g, normalizePhone pm)
              | _ \<Rightarrow> None)
         | _ \<Rightarrow> None)
      else None)"

text \<open>The session ids that \<^verbatim>\<open>uuidv4()\<close> gives to the intake calls of an event sequence.\<close>

fun created :: "event list \<Rightarrow> string list" where
  "created [] = []"
| "created (UssdInit ph amt off sessionId rf now # evs) = sessionId # created evs"
| "created (ev # evs) = created evs"

text \<open>
  The guard of the connection manager: the flag \<^verbatim>\<open>reconnecting\<close> is set exactly while one
  \<^verbatim>\<open>mikrotik.connect()\<close> is awaited, and the connection is not ready meanwhile.
\<close>

definition guarded :: "runtime \<Rightarrow> bool" where
  "guarded rt \<longleftrightarrow>
     in_flight rt = (if reconnecting (core rt) then 1 else 0)
     \<and> (reconnecting (core rt) \<longrightarrow> \<not> mikrotikReady (core rt))"

text \<open>
  The amounts the pattern is written for, in the words of the specification: a run of
  digits, or one to three digits followed by groups of a separator (space or comma) and
  three digits.
\<close>

fun is_groups :: "string \<Rightarrow> bool" where
  "is_groups [] = True"
| "is_groups (c # d1 # d2 # d3 # s) =
     (c \<in> set '' ,'' \<and> is_digit d1 \<and> is_digit d2 \<and> is_digit d3 \<and> is_groups s)"
| "is_groups _ = False"

definition grouped_amount :: "string \<Rightarrow> bool" where
  "grouped_amount g =
     (let n = length (takeWhile is_digit g)
      in 1 \<le> n \<and> (drop n g = [] \<or> (n \<le> 3 \<and> is_groups (drop n g))))"

text \<open>
  An amount adjacent to the currency marker: somewhere in the message a digit is followed
  by \<^verbatim>\<open>Ar\<close> (in either case), with at most one white-space character between them.
\<close>

fun amount_adjacent :: "string \<Rightarrow> bool" where
  "amount_adjacent [] = False"
| "amount_adjacent (d # s) = ((is_digit d \<and> tail_ar s) \<or> amount_adjacent s)"

text \<open>
  An issuance run without interruption through the suspended form: each awaited operation
  settles at once with the outcome \<open>x\<close> gives it. An issuance passes through at most four
  suspensions, so four steps of fuel finish it.
\<close>

fun outcome_at :: "io \<Rightarrow> stage \<Rightarrow> bool" where
  "outcome_at x AwaitConnect1 = connect1 x"
| "outcome_at x AwaitWrite1 = write1 x"
| "outcome_at x AwaitConnect2 = connect2 x"
| "outcome_at x AwaitWrite2 = write2 x"

fun drive :: "nat \<Rightarrow> io \<Rightarrow> command \<Rightarrow> progress \<times> state \<Rightarrow> (voucher option \<times> state) option" where
  "drive n x c (Finished r, st) = Some (r, st)"
| "drive 0 x c (Await sg, st) = None"
| "drive (Suc n) x c (Await sg, st) = drive n x c (issue_resume (outcome_at x sg) sg c st)"

section \<open>The variant \<^verbatim>\<open>src/server.js\<close>\<close>

text \<open>
  \<^verbatim>\<open>src/server.js\<close> is another version of the same server. It differs from the version
  above in the two places modelled here. Its amount pattern is \<^verbatim>\<open>/(\d+)\s?Ar/i\<close>, without
  grouping separators, and the amount is \<^verbatim>\<open>Number(amountMatch[1])\<close>.
\<close>

definition amount_here_server :: "string \<Rightarrow> string option" where
  "amount_here_server s =
     (case List.find (\<lambda>l. tail_ar (drop l s)) (alt2_lengths s) of
        None \<Rightarrow> None
      | Some l \<Rightarrow> Some (take l s))"

fun amountMatch_server :: "string \<Rightarrow> string option" where
  "amountMatch_server [] = None"
| "amountMatch_server (c # cs) =
     (case amount_here_server (c # cs) of Some g \<Rightarrow> Some g | None \<Rightarrow> amountMatch_server cs)"

text \<open>
  Its \<^verbatim>\<open>connectMikrotik\<close> leaves \<^verbatim>\<open>mikrotikReady\<close> as it is when the connect fails, and its
  \<^verbatim>\<open>generateVoucher(profileName, retry = true)\<close> throws when the connection is not ready,
  and after a failed write reconnects and calls itself with \<^verbatim>\<open>retry = false\<close>, which draws
  a new name and password (\<open>u2\<close>, \<open>pw2\<close>).
\<close>

definition connectMikrotik_server :: "bool \<Rightarrow> state \<Rightarrow> state" where
  "connectMikrotik_server ok st =
     (if mikrotikReady st \<or> reconnecting st then st
      else st\<lparr>mikrotikReady := ok, reconnecting := False, connects := Suc (connects st)\<rparr>)"

definition generateVoucher_server ::
  "io \<Rightarrow> string \<Rightarrow> string \<Rightarrow> string \<Rightarrow> string \<Rightarrow> profile \<Rightarrow> state \<Rightarrow> voucher option \<times> state"
  where
  "generateVoucher_server x u pw u2 pw2 profileName st =
     (if \<not> mikrotikReady st then (None, st)
      else
        let st1 = send (AddUser (''SD-'' @ u) pw profileName) st
        in if write1 x then (Some \<lparr>username = ''SD-'' @ u, password = pw\<rparr>, st1)
           else
             let st2 = connectMikrotik_server (connect2 x) (st1\<lparr>mikrotikReady := False\<rparr>)
             in if \<not> mikrotikReady st2 then (None, st2)
                else
                  let st3 = send (AddUser (''SD-'' @ u2) pw2 profileName) st2
                  in if write2 x then (Some \<lparr>username = ''SD-'' @ u2, password = pw2\<rparr>, st3)
                     else (None, st3\<lparr>mikrotikReady := False\<rparr>))"

section \<open>Scenarios\<close>

text \<open>
  The confirmation of the running example, as a message and as an event.
\<close>

definition example_message :: string where
  "example_message = ''Vous avez recu 1000 Ar de (0321234567)''"

definition example_sms :: event where
  "example_sms = SmsIncoming (JStr ''MVOLA'') (JStr example_message) ''abcde'' ''123456''"

text \<open>Device outcomes: everything succeeds.\<close>

definition all_ok :: io where
  "all_ok = \<lparr>connect1 = True, write1 = True, connect2 = True, write2 = True\<rparr>"

text \<open>Device outcomes: the first write fails, the reconnection and the second write succeed.\<close>

definition retry_ok :: io where
  "retry_ok = \<lparr>connect1 = True, write1 = False, connect2 = True, write2 = True\<rparr>"

text \<open>Device outcomes: both writes fail.\<close>

definition retry_fails :: io where
  "retry_fails = \<lparr>connect1 = True, write1 = False, connect2 = True, write2 = False\<rparr>"

text \<open>Device outcomes: the first write fails and the reconnection fails.\<close>

definition no_reconnect :: io where
  "no_reconnect = \<lparr>connect1 = True, write1 = False, connect2 = False, write2 = True\<rparr>"

text \<open>
  The state after the intake call \<^verbatim>\<open>{phone: "032 12 345 67", amount: 1000, offer: "1h"}\<close>
  at time 0 on a fresh server.
\<close>

definition one_pending :: state where
  "one_pending =
     snd (ussd_init (JStr ''032 12 345 67'') (JNum (Fin 1000)) (JStr ''1h'') ''S-1'' ''AB12CD'' 0
            initial)"

text \<open>Two pending sessions for the same amount and phone, created at times 0 and 1000.\<close>

definition two_pending :: state where
  "two_pending =
     snd (ussd_init (JStr ''032 12 345 67'') (JNum (Fin 1000)) (JStr ''5h'') ''S-2'' ''EF34GH'' 1000
            one_pending)"

text \<open>A session whose offer \<^verbatim>\<open>2h\<close> is not a key of \<^verbatim>\<open>profileMap\<close>.\<close>

definition unmapped_pending :: state where
  "unmapped_pending =
     snd (ussd_init (JStr ''032 12 345 67'') (JNum (Fin 1000)) (JStr ''2h'') ''S-1'' ''AB12CD'' 0
            initial)"

text \<open>
  A session created by the intake call
  \<^verbatim>\<open>{phone: "032 12 345 67", amount: 1000, offer: ["1h"]}\<close>.
\<close>

definition array_offer_pending :: state where
  "array_offer_pending =
     snd (ussd_init (JStr ''032 12 345 67'') (JNum (Fin 1000)) (JArr [JStr ''1h'']) ''S-1'' ''AB12CD'' 0
            initial)"

text \<open>
  A session created by the intake call
  \<^verbatim>\<open>{phone: "032 12 345 67", amount: 1000, offer: {"toString": 1}}\<close>.
\<close>

definition object_offer_pending :: state where
  "object_offer_pending =
     snd (ussd_init (JStr ''032 12 345 67'') (JNum (Fin 1000)) (JObj [(''toString'', JNum (Fin 1))])
            ''S-1'' ''AB12CD'' 0 initial)"

text \<open>
  Two pending sessions for the same amount and phone where the clock read 2000 at the
  first creation and 1000 at the second.
\<close>

definition clock_stepped_back :: state where
  "clock_stepped_back =
     core (run [UssdInit (JStr ''032 12 345 67'') (JNum (Fin 1000)) (JStr ''1h'') ''S-1'' ''AB12CD'' 2000,
                UssdInit (JStr ''032 12 345 67'') (JNum (Fin 1000)) (JStr ''5h'') ''S-2'' ''EF34GH'' 1000]
             boot)"

text \<open>The same session confirmed while its issuance waits for the device.\<close>

definition confirmed_in_flight :: runtime where
  "confirmed_in_flight =
     run [UssdInit (JStr ''032 12 345 67'') (JNum (Fin 1000)) (JStr ''1h'') ''S-1'' ''AB12CD'' 0,
          example_sms] boot"

text \<open>
  A pending session on a server whose start-up connection attempt has not settled yet.
\<close>

definition attempt_in_flight :: runtime where
  "attempt_in_flight =
     run [UssdInit (JStr ''032 12 345 67'') (JNum (Fin 1000)) (JStr ''1h'') ''S-1'' ''AB12CD'' 0,
          Listen] boot"

text \<open>
  The intake call of the running example, its confirmation, and the same confirmation again
  while the issuance of the first one waits for the device.
\<close>

definition double_delivery :: "event list" where
  "double_delivery =
     [UssdInit (JStr ''032 12 345 67'') (JNum (Fin 1000)) (JStr ''1h'') ''S-1'' ''AB12CD'' 0,
      example_sms, example_sms]"

section \<open>Properties\<close>

subsection \<open>Conversions\<close>

lemma error_TypeError [simp]: "e = TypeError"
  by (cases e) simp

text \<open>The conversions throw exactly on the values that have no primitive value.\<close>

lemma to_string_throws:
  "(to_string v = Inl TypeError) = no_primitive v"
  "(join vs = Inl TypeError) = (\<exists>v \<in> set vs. no_primitive v)"
  by (induction v and vs rule: to_string_join.induct) (auto split: sum.splits)

lemma js_Number_throws: "(js_Number v = Inl TypeError) = no_primitive v"
  using to_string_throws(1)[of v] by (cases v) (auto split: sum.splits)

lemma test_mvola_throws: "(test_mvola v = Inl TypeError) = no_primitive v"
  using to_string_throws(1)[of v] by (auto simp: test_mvola_def split: sum.splits)

lemma profile_of_throws: "(profile_of v = Inl TypeError) = no_primitive v"
  using to_string_throws(1)[of v] by (auto simp: profile_of_def split: sum.splits)

lemma test_mvola_JStr [simp]: "test_mvola (JStr s) = Inr (mvola_in s)"
  by (simp add: test_mvola_def)

lemma profile_of_JStr [simp]:
  "profile_of (JStr s) =
     Inr (case map_of profileMap s of
            Some n \<Rightarrow> Some (Profile n)
          | None \<Rightarrow> if s \<in> set object_prototype_keys then Some (Inherited s) else None)"
  by (simp add: profile_of_def)

subsection \<open>Numbers written in digits\<close>

lemma round_double_nat: "n \<le> 2 ^ 53 \<Longrightarrow> round_double (of_nat n) = Fin (of_nat n)"
proof -
  assume "n \<le> 2 ^ 53"
  then have "(of_nat n :: rat) \<le> of_nat (2 ^ 53)" by (simp only: of_nat_le_iff)
  then have "\<bar>of_nat n :: rat\<bar> \<le> 2 ^ 53" by simp
  then show ?thesis unfolding round_double_def by simp
qed

lemma white_space_ends:
  "list_all (\<lambda>w. w \<noteq> [] \<and> \<not> is_digit (hd w) \<and> \<not> is_digit (last w)) white_space"
  by (simp add: white_space_def is_digit_def)

lemma white_space_endsD:
  "w \<in> set white_space \<Longrightarrow> w \<noteq> [] \<and> \<not> is_digit (hd w) \<and> \<not> is_digit (last w)"
  using white_space_ends by (simp add: list_all_iff)

lemma strip_space_digit:
  assumes "is_digit d"
  shows "strip_space (d # s) = None"
proof -
  have "take (length w) (d # s) \<noteq> w" if "w \<in> set white_space" for w
  proof
    assume a: "take (length w) (d # s) = w"
    from white_space_endsD[OF that] have "w \<noteq> []" "\<not> is_digit (hd w)" by simp_all
    moreover from a \<open>w \<noteq> []\<close> have "hd w = d" by (cases w) auto
    ultimately show False using assms by simp
  qed
  then show ?thesis unfolding strip_space_def by (auto simp: find_None_iff split: option.splits)
qed

lemma trim_start_fuel_digit: "is_digit d \<Longrightarrow> trim_start_fuel n (d # s) = d # s"
  by (cases n) (simp_all add: strip_space_digit)

lemma drop_suffix_last:
  assumes "w \<noteq> []" "length w \<le> length s" "drop (length s - length w) s = w"
  shows "last s = last w"
proof -
  have "length s - length w < length s" using assms by (cases w) auto
  then have "last (drop (length s - length w) s) = last s" by (rule last_drop)
  with assms show ?thesis by simp
qed

lemma strip_space_end_digit:
  assumes "s \<noteq> []" "is_digit (last s)"
  shows "strip_space_end s = None"
proof -
  have "\<not> (length w \<le> length s \<and> drop (length s - length w) s = w)" if "w \<in> set white_space" for w
  proof
    assume a: "length w \<le> length s \<and> drop (length s - length w) s = w"
    from white_space_endsD[OF that] have w: "w \<noteq> []" "\<not> is_digit (last w)" by simp_all
    with a have "last s = last w" using drop_suffix_last by blast
    with assms(2) w show False by simp
  qed
  then show ?thesis unfolding strip_space_end_def by (auto simp: find_None_iff split: option.splits)
qed

lemma trim_end_fuel_digit: "s \<noteq> [] \<Longrightarrow> is_digit (last s) \<Longrightarrow> trim_end_fuel n s = s"
  by (cases n) (simp_all add: strip_space_end_digit)

lemma trim_digits:
  assumes "ds \<noteq> []" "list_all is_digit ds"
  shows "trim ds = ds"
proof -
  from assms obtain d s where ds: "ds = d # s" and d: "is_digit d" by (cases ds) auto
  have l: "is_digit (last ds)" using assms by (simp add: list_all_iff)
  have "trim_start_fuel (length ds) ds = ds"
    unfolding ds using d by (rule trim_start_fuel_digit)
  moreover have "trim_end_fuel (length ds) ds = ds"
    using assms(1) l by (rule trim_end_fuel_digit)
  ultimately show ?thesis unfolding trim_def by simp
qed

lemma digit_not_radix:
  assumes "is_digit x"
  shows "x \<noteq> CHR ''x''" "x \<noteq> CHR ''X''" "x \<noteq> CHR ''o''" "x \<noteq> CHR ''O''"
    "x \<noteq> CHR ''b''" "x \<noteq> CHR ''B''"
  using assms unfolding is_digit_def by auto

lemma non_decimal_digits:
  assumes "list_all is_digit ds"
  shows "non_decimal ds = None"
proof (cases ds)
  case Nil
  then show ?thesis by (simp add: non_decimal_def)
next
  case (Cons z t)
  show ?thesis
  proof (cases t)
    case Nil
    with Cons show ?thesis by (simp add: non_decimal_def)
  next
    case (Cons x r)
    with assms \<open>ds = z # t\<close> have "is_digit x" by simp
    from digit_not_radix[OF this] show ?thesis
      by (simp add: non_decimal_def \<open>ds = z # t\<close> Cons)
  qed
qed

lemma unsigned_decimal_digits:
  assumes "ds \<noteq> []" "list_all is_digit ds"
  shows "unsigned_decimal ds = Some (of_nat (based_value 10 ds))"
proof -
  have t: "takeWhile is_digit ds = ds" and d: "dropWhile is_digit ds = []"
    using assms(2) by (simp_all add: list_all_iff)
  show ?thesis unfolding unsigned_decimal_def
    by (simp add: t d assms(1) exponent_part_def pow10_def)
qed

lemma str_decimal_digits:
  assumes "ds \<noteq> []" "list_all is_digit ds"
  shows "str_decimal ds = round_double (of_nat (based_value 10 ds))"
proof -
  from assms obtain d s where ds: "ds = d # s" and d: "is_digit d" by (cases ds) auto
  from d have "d \<noteq> CHR ''-''" "d \<noteq> CHR ''+''" "d \<noteq> CHR ''I''" unfolding is_digit_def by auto
  then have "\<not> (ds \<noteq> [] \<and> hd ds = CHR ''-'')" "\<not> (ds \<noteq> [] \<and> hd ds \<in> set ''+-'')"
    "ds \<noteq> ''Infinity''"
    by (auto simp: ds)
  then show ?thesis unfolding str_decimal_def
    by (simp only: Let_def if_False unsigned_decimal_digits[OF assms] option.case)
qed

lemma str_to_number_digits:
  assumes "ds \<noteq> []" "list_all is_digit ds"
  shows "str_to_number ds = round_double (of_nat (based_value 10 ds))"
  unfolding str_to_number_def
  by (simp only: Let_def trim_digits[OF assms] assms(1) if_False non_decimal_digits[OF assms(2)]
      option.case str_decimal_digits[OF assms])

subsection \<open>The amount pattern\<close>

lemma find_append:
  "List.find P (xs @ ys) = (case List.find P xs of None \<Rightarrow> List.find P ys | Some x \<Rightarrow> Some x)"
  by (induction xs) simp_all

lemma find_SomeD: "List.find P xs = Some x \<Longrightarrow> x \<in> set xs \<and> P x"
  by (induction xs) (auto split: if_splits)

lemma in_concat_map: "x \<in> set (concat (map f xs)) \<Longrightarrow> \<exists>y \<in> set xs. x \<in> set (f y)"
  by auto

lemma strip_space_sep:
  "strip_space (CHR '' '' # t) = Some t" "strip_space (CHR '','' # t) = None"
  by (simp_all add: strip_space_def white_space_def)

lemma ar_here_not_digit: "ar_here (d # s) \<Longrightarrow> \<not> is_digit d"
  by (cases s) (auto simp: is_digit_def)

lemma tail_ar_digit: "is_digit d \<Longrightarrow> \<not> tail_ar (d # s)"
  using ar_here_not_digit[of d s] by (auto simp: tail_ar_def strip_space_digit)

lemma tail_ar_Nil [simp]: "\<not> tail_ar []"
  by (simp add: tail_ar_def strip_space_def white_space_def)

lemma tail_ar_sep:
  assumes "c \<in> set '' ,''" and "is_digit d"
  shows "\<not> tail_ar (c # d # s)"
proof -
  have "\<not> ar_here (c # d # s)" using assms(1) by auto
  moreover have "\<not> ar_here (d # s)" using ar_here_not_digit assms(2) by blast
  ultimately show ?thesis using assms(1) by (auto simp: tail_ar_def strip_space_sep)
qed

lemma tail_ar_hd: "tail_ar r \<Longrightarrow> \<exists>c t. r = c # t \<and> \<not> is_digit c"
  using tail_ar_digit by (cases r) auto

lemma groups_pos:
  "0 < groups s \<Longrightarrow>
     \<exists>c d1 d2 d3 t. s = c # d1 # d2 # d3 # t \<and> c \<in> set '' ,'' \<and> is_digit d1 \<and> is_digit d2
       \<and> is_digit d3 \<and> groups s = Suc (groups t)"
  by (cases s rule: groups.cases) (auto split: if_splits)

lemma groups_tail_ar: "tail_ar s \<Longrightarrow> groups s = 0"
proof (rule ccontr)
  assume t: "tail_ar s" and "groups s \<noteq> 0"
  then have "0 < groups s" by simp
  from groups_pos[OF this] obtain c d1 r where "s = c # d1 # r" "c \<in> set '' ,''" "is_digit d1"
    by blast
  with tail_ar_sep[of c d1 r] t show False by simp
qed

lemma groups_digit: "is_digit d \<Longrightarrow> groups (d # s) = 0"
proof (rule ccontr)
  assume d: "is_digit d" and "groups (d # s) \<noteq> 0"
  then have "0 < groups (d # s)" by simp
  from groups_pos[OF this] have "d \<in> set '' ,''" by auto
  with d show False by (auto simp: is_digit_def)
qed

lemma is_groups_append:
  "is_groups h \<Longrightarrow> groups r = 0 \<Longrightarrow> groups (h @ r) = length h div 4 \<and> length h mod 4 = 0"
proof (induction h rule: is_groups.induct)
  case 1
  then show ?case by simp
next
  case (2 c d1 d2 d3 s)
  then show ?case by simp
qed simp_all

lemma is_groups_chars: "is_groups h \<Longrightarrow> c \<in> set h \<Longrightarrow> is_digit c \<or> c \<in> set '' ,''"
  by (induction h rule: is_groups.induct) auto

lemma run_before_tail:
  assumes "tail_ar r"
  shows "takeWhile is_digit (g @ r) = takeWhile is_digit g"
proof -
  from tail_ar_hd[OF assms] obtain c t where "r = c # t" "\<not> is_digit c" by blast
  then show ?thesis by (simp add: takeWhile_append) (metis takeWhile_eq_all_conv)
qed

lemma run_digit:
  assumes "m < length (takeWhile is_digit s)"
  shows "\<exists>d t. drop m s = d # t \<and> is_digit d"
proof -
  have "m < length s" using assms length_takeWhile_le[of is_digit s] by simp
  moreover have "is_digit (s ! m)"
    using assms by (metis nth_mem set_takeWhileD takeWhile_nth)
  ultimately show ?thesis by (metis Cons_nth_drop_Suc)
qed

lemma takeWhile_run:
  assumes "m \<le> length (takeWhile is_digit s)"
  shows "list_all is_digit (take m s)" and "m \<le> length s"
proof -
  have "take m s = take m (takeWhile is_digit s)"
    by (metis assms append_eq_conv_conj takeWhile_dropWhile_id take_take min.absorb1)
  then show "list_all is_digit (take m s)"
    by (metis in_set_takeD list_all_iff set_takeWhileD)
  show "m \<le> length s" using assms length_takeWhile_le[of is_digit s] by simp
qed

lemma alt1_first:
  assumes "n \<in> {1, 2, 3}" and "length (takeWhile is_digit s) = n"
  shows "\<exists>rest. alt1_lengths s = (n + 4 * groups (drop n s)) # rest"
proof -
  have "\<exists>ms. filter (\<lambda>m. m \<le> n) [3, 2, 1] = n # ms" using assms(1) by auto
  then obtain ms where f: "filter (\<lambda>m. m \<le> n) [3, 2, 1] = n # ms" by blast
  show ?thesis unfolding alt1_lengths_def assms(2) f by simp
qed

lemma alt2_first:
  assumes "1 \<le> n" and "length (takeWhile is_digit s) = n"
  shows "\<exists>rest. alt2_lengths s = n # rest"
  using assms unfolding alt2_lengths_def by (cases n) auto

lemma alt1_member:
  assumes "l \<in> set (alt1_lengths s)"
  shows "\<exists>m k. m \<in> {1, 2, 3} \<and> m \<le> length (takeWhile is_digit s) \<and> k \<le> groups (drop m s)
           \<and> l = m + 4 * k"
proof -
  from assms obtain m where
    m: "m \<in> set (filter (\<lambda>n. n \<le> length (takeWhile is_digit s)) [3, 2, 1])"
    and l: "l \<in> set (map (\<lambda>k. m + 4 * k) (rev [0..<Suc (groups (drop m s))]))"
    unfolding alt1_lengths_def by (blast dest: in_concat_map)
  from m have "m \<in> set [3, 2, 1] \<and> m \<le> length (takeWhile is_digit s)"
    by (simp only: set_filter mem_Collect_eq)
  then have "m \<in> {1, 2, 3}" "m \<le> length (takeWhile is_digit s)" by auto
  moreover from l obtain k where "k \<le> groups (drop m s)" "l = m + 4 * k" by auto
  ultimately show ?thesis by blast
qed

lemma grouped_digits: "g \<noteq> [] \<Longrightarrow> list_all is_digit g \<Longrightarrow> grouped_amount g"
proof -
  assume a: "g \<noteq> []" "list_all is_digit g"
  then have t: "takeWhile is_digit g = g" by (simp add: list_all_iff)
  from a(1) have "1 \<le> length g" by (cases g) simp_all
  then show ?thesis unfolding grouped_amount_def Let_def t by simp
qed

lemma amount_here_grouped:
  assumes "grouped_amount g" and "tail_ar r"
  shows "amount_here (g @ r) = Some g"
proof -
  define s where "s = g @ r"
  define n where "n = length (takeWhile is_digit g)"
  have n1: "1 \<le> n" and shape: "drop n g = [] \<or> (n \<le> 3 \<and> is_groups (drop n g))"
    using assms(1) by (simp_all add: grouped_amount_def n_def Let_def)
  have run: "length (takeWhile is_digit s) = n"
    by (simp add: s_def run_before_tail[OF assms(2)] n_def)
  have nle: "n \<le> length g" by (simp add: n_def length_takeWhile_le)
  then have dn: "drop n s = drop n g @ r" by (simp add: s_def)
  have hit: "tail_ar (drop (length g) s)" and tk: "take (length g) s = g"
    using assms(2) by (simp_all add: s_def)
  have "List.find (\<lambda>l. tail_ar (drop l s)) (alt1_lengths s @ alt2_lengths s) = Some (length g)"
  proof (cases "n \<le> 3 \<and> is_groups (drop n g)")
    case True
    then have "groups (drop n g @ r) = length (drop n g) div 4" "length (drop n g) mod 4 = 0"
      using is_groups_append[of "drop n g" r] groups_tail_ar[OF assms(2)] by simp_all
    then have len: "n + 4 * groups (drop n s) = length g"
      unfolding dn using nle by simp presburger
    have "n \<in> {1, 2, 3}" using True n1 by auto
    from alt1_first[OF this run] len obtain rest where "alt1_lengths s = length g # rest" by auto
    with hit show ?thesis by simp
  next
    case False
    with shape have all: "drop n g = []" and big: "3 < n" using n1 by auto
    then have gn: "length g = n" using nle by simp
    have "\<not> tail_ar (drop l s)" if "l \<in> set (alt1_lengths s)" for l
    proof -
      from alt1_member[OF that] obtain m k where
        m: "m \<in> {1, 2, 3}" "k \<le> groups (drop m s)" "l = m + 4 * k"
        by blast
      with big run have "m < length (takeWhile is_digit s)" by auto
      from run_digit[OF this] obtain d t where d: "drop m s = d # t" "is_digit d" by blast
      with m(2) groups_digit[of d t] have "k = 0" by simp
      with m(3) d tail_ar_digit show ?thesis by simp
    qed
    then have "List.find (\<lambda>l. tail_ar (drop l s)) (alt1_lengths s) = None"
      by (simp add: find_None_iff)
    moreover from alt2_first[OF n1 run] gn obtain rest where "alt2_lengths s = length g # rest"
      by auto
    ultimately show ?thesis using hit by (simp add: find_append)
  qed
  then show ?thesis unfolding s_def[symmetric] by (simp add: amount_here_def tk)
qed

lemma amount_here_no_digit: "\<not> is_digit c \<Longrightarrow> amount_here (c # s) = None"
  by (simp add: amount_here_def alt1_lengths_def alt2_lengths_def)

lemma amountMatch_skip:
  "list_all (\<lambda>c. \<not> is_digit c) pre \<Longrightarrow> amountMatch (pre @ s) = amountMatch s"
  by (induction pre) (simp_all add: amount_here_no_digit)

lemma amountMatch_grouped:
  assumes "list_all (\<lambda>c. \<not> is_digit c) pre" and "grouped_amount g" and "tail_ar r"
  shows "amountMatch (pre @ g @ r) = Some g"
proof -
  have "g \<noteq> []" using assms(2) by (auto simp: grouped_amount_def Let_def)
  then obtain c t where "g @ r = c # t" by (cases g) auto
  with amount_here_grouped[OF assms(2,3)] have "amountMatch (g @ r) = Some g" by simp
  with amountMatch_skip[OF assms(1)] show ?thesis by simp
qed

lemma grouped_amount_chars:
  assumes "grouped_amount g" and "c \<in> set g"
  shows "is_digit c \<or> c \<in> set '' ,''"
proof -
  define n where "n = length (takeWhile is_digit g)"
  have "g = takeWhile is_digit g @ drop n g"
    by (metis n_def takeWhile_dropWhile_id dropWhile_eq_drop)
  with assms(2) consider "c \<in> set (takeWhile is_digit g)" | "c \<in> set (drop n g)"
    by (metis Un_iff set_append)
  then show ?thesis
  proof cases
    case 1
    then show ?thesis by (auto dest: set_takeWhileD)
  next
    case 2
    then have "drop n g \<noteq> []" by auto
    with assms(1) have "is_groups (drop n g)" by (auto simp: grouped_amount_def n_def Let_def)
    from is_groups_chars[OF this 2] show ?thesis .
  qed
qed

lemma amount_of_grouped:
  assumes "grouped_amount g"
  shows "amount_of_group g = round_double (of_nat (based_value 10 (filter is_digit g)))"
proof -
  have "(c \<notin> set '' ,.'') = is_digit c" if "c \<in> set g" for c
    using grouped_amount_chars[OF assms that] by (auto simp: is_digit_def)
  then have f: "filter (\<lambda>c. c \<notin> set '' ,.'') g = filter is_digit g"
    by (intro filter_cong) auto
  have "takeWhile is_digit g \<noteq> []"
    using assms by (auto simp: grouped_amount_def Let_def)
  then have "\<exists>d \<in> set g. is_digit d"
    by (metis hd_in_set set_takeWhileD)
  then have "filter is_digit g \<noteq> []" by (simp add: filter_empty_conv)
  moreover have "list_all is_digit (filter is_digit g)" by (simp add: list_all_iff)
  ultimately show ?thesis
    unfolding amount_of_group_def f by (rule str_to_number_digits)
qed

lemma amount_adjacent_drop:
  "drop j s = d # t \<Longrightarrow> is_digit d \<Longrightarrow> tail_ar t \<Longrightarrow> amount_adjacent s"
proof (induction s arbitrary: j)
  case Nil
  then show ?case by simp
next
  case (Cons a s)
  then show ?case by (cases j) auto
qed

lemma groups_last_digit:
  "0 < k \<Longrightarrow> k \<le> groups t \<Longrightarrow> \<exists>d u. drop (4 * k - 1) t = d # u \<and> is_digit d"
proof (induction k arbitrary: t)
  case 0
  then show ?case by simp
next
  case (Suc k)
  then have "0 < groups t" by simp
  from groups_pos[OF this] obtain c d1 d2 d3 r where
    t: "t = c # d1 # d2 # d3 # r" "is_digit d3" "groups t = Suc (groups r)"
    by blast
  show ?case
  proof (cases k)
    case 0
    with t show ?thesis by simp
  next
    case (Suc k')
    with Suc.prems t have "0 < k" "k \<le> groups r" by simp_all
    from Suc.IH[OF this] obtain d u where "drop (4 * k - 1) r = d # u" "is_digit d" by blast
    moreover have "drop (4 * Suc k - 1) t = drop (4 * k - 1) r"
      using t(1) \<open>0 < k\<close> by (simp add: drop_Cons' algebra_simps)
    ultimately show ?thesis by simp
  qed
qed

lemma amount_here_adjacent:
  assumes "amount_here s = Some g"
  shows "amount_adjacent s"
proof -
  from assms obtain l where
    "List.find (\<lambda>l. tail_ar (drop l s)) (alt1_lengths s @ alt2_lengths s) = Some l"
    unfolding amount_here_def by (auto split: option.splits)
  then have l: "l \<in> set (alt1_lengths s @ alt2_lengths s)" "tail_ar (drop l s)"
    using find_SomeD by fastforce+
  have "\<exists>j d. drop j s = d # drop l s \<and> is_digit d"
  proof (cases "l \<in> set (alt2_lengths s)")
    case True
    then have "1 \<le> l" "l - 1 < length (takeWhile is_digit s)"
      unfolding alt2_lengths_def by auto
    from run_digit[OF this(2)] obtain d t where d: "drop (l - 1) s = d # t" "is_digit d" by blast
    then have "drop (Suc (l - 1)) s = t" by (metis drop_Suc list.sel(3) tl_drop)
    with d \<open>1 \<le> l\<close> show ?thesis by auto
  next
    case False
    with l(1) have "l \<in> set (alt1_lengths s)" by simp
    from alt1_member[OF this] obtain m k where
      m: "m \<in> {1, 2, 3}" "m \<le> length (takeWhile is_digit s)" "k \<le> groups (drop m s)"
        "l = m + 4 * k"
      by blast
    show ?thesis
    proof (cases "k = 0")
      case True
      with m have "1 \<le> l" "l - 1 < length (takeWhile is_digit s)" by auto
      from run_digit[OF this(2)] obtain d t where d: "drop (l - 1) s = d # t" "is_digit d" by blast
      then have "drop (Suc (l - 1)) s = t" by (metis drop_Suc list.sel(3) tl_drop)
      with d \<open>1 \<le> l\<close> show ?thesis by auto
    next
      case False
      then have "0 < k" by simp
      from groups_last_digit[OF this m(3)] obtain d u where
        d: "drop (4 * k - 1) (drop m s) = d # u" "is_digit d"
        by blast
      have j: "drop (m + 4 * k - 1) s = d # u" using d(1) \<open>0 < k\<close> by (simp add: add.commute)
      then have "drop (Suc (m + 4 * k - 1)) s = u" by (metis drop_Suc list.sel(3) tl_drop)
      then have "drop l s = u" using m(4) \<open>0 < k\<close> by simp
      with j d(2) show ?thesis by auto
    qed
  qed
  then obtain j d where "drop j s = d # drop l s" "is_digit d" by blast
  from amount_adjacent_drop[OF this l(2)] show ?thesis .
qed

lemma amountMatch_adjacent: "amountMatch msg = Some g \<Longrightarrow> amount_adjacent msg"
proof (induction msg)
  case Nil
  then show ?case by simp
next
  case (Cons c cs)
  show ?case
  proof (cases "amount_here (c # cs)")
    case None
    with Cons show ?thesis by simp
  next
    case (Some h)
    from amount_here_adjacent[OF this] show ?thesis .
  qed
qed

lemma adjacent_amountMatch: "amount_adjacent msg \<Longrightarrow> amountMatch msg \<noteq> None"
proof (induction msg)
  case Nil
  then show ?case by simp
next
  case (Cons d s)
  show ?case
  proof (cases "is_digit d \<and> tail_ar s")
    case True
    then have "grouped_amount [d]" by (simp add: grouped_amount_def)
    from amount_here_grouped[OF this, of s] True show ?thesis by simp
  next
    case False
    with Cons have "amountMatch s \<noteq> None" by auto
    then show ?thesis by (auto split: option.splits)
  qed
qed

lemma groups_take:
  "k \<le> groups t \<Longrightarrow> is_groups (take (4 * k) t) \<and> 4 * k \<le> length t"
proof (induction k arbitrary: t)
  case 0
  then show ?case by simp
next
  case (Suc k)
  then have "0 < groups t" by simp
  from groups_pos[OF this] obtain c d1 d2 d3 r where
    t: "t = c # d1 # d2 # d3 # r" "c \<in> set '' ,''" "is_digit d1" "is_digit d2" "is_digit d3"
      "groups t = Suc (groups r)"
    by blast
  with Suc.prems have "k \<le> groups r" by simp
  from Suc.IH[OF this] have "is_groups (take (4 * k) r)" "4 * k \<le> length r" by simp_all
  moreover have "take (4 * Suc k) t = c # d1 # d2 # d3 # take (4 * k) r"
    by (simp add: t(1) take_Cons' algebra_simps)
  ultimately show ?case using t by simp
qed

lemma amount_here_sound:
  assumes "amount_here s = Some g"
  shows "grouped_amount g \<and> (\<exists>after. s = g @ after \<and> tail_ar after)"
proof -
  from assms obtain l where
    f: "List.find (\<lambda>l. tail_ar (drop l s)) (alt1_lengths s @ alt2_lengths s) = Some l"
    and g: "g = take l s"
    unfolding amount_here_def by (auto split: option.splits)
  from f have l: "l \<in> set (alt1_lengths s @ alt2_lengths s)" "tail_ar (drop l s)"
    using find_SomeD by fastforce+
  have split: "s = g @ drop l s" by (simp add: g)
  have "grouped_amount g"
  proof (cases "l \<in> set (alt2_lengths s)")
    case True
    then have b: "1 \<le> l" "l \<le> length (takeWhile is_digit s)"
      unfolding alt2_lengths_def by auto
    from takeWhile_run[OF b(2)] b(1) show ?thesis
      unfolding g by (intro grouped_digits) auto
  next
    case False
    with l(1) have "l \<in> set (alt1_lengths s)" by simp
    from alt1_member[OF this] obtain m k where
      m: "m \<in> {1, 2, 3}" "m \<le> length (takeWhile is_digit s)" "k \<le> groups (drop m s)"
        "l = m + 4 * k"
      by blast
    note d = takeWhile_run[OF m(2)]
    show ?thesis
    proof (cases "k = 0")
      case True
      with m d show ?thesis unfolding g by (intro grouped_digits) auto
    next
      case False
      then have "0 < groups (drop m s)" using m(3) by simp
      from groups_pos[OF this] obtain c r where c: "drop m s = c # r" "c \<in> set '' ,''" by blast
      then have nd: "\<not> is_digit c" by (auto simp: is_digit_def)
      from groups_take[OF m(3)] have gk: "is_groups (take (4 * k) (drop m s))" by simp
      have parts: "g = take m s @ take (4 * k) (drop m s)"
        unfolding g m(4) by (simp add: take_add)
      have hdk: "take (4 * k) (drop m s) = c # take (4 * k - 1) r"
        using c(1) False by (simp add: take_Cons')
      have "takeWhile is_digit g = take m s"
        unfolding parts hdk using d(1) nd by (simp add: takeWhile_append list_all_iff)
      then have "length (takeWhile is_digit g) = m" using d(2) by simp
      moreover have "drop m g = take (4 * k) (drop m s)"
        unfolding parts using d(2) by simp
      ultimately show ?thesis using m(1) gk by (auto simp: grouped_amount_def Let_def)
    qed
  qed
  with split l(2) show ?thesis by blast
qed

lemma amountMatch_sound:
  "amountMatch msg = Some g \<Longrightarrow>
     grouped_amount g \<and> (\<exists>before after. msg = before @ g @ after \<and> tail_ar after)"
proof (induction msg)
  case Nil
  then show ?case by simp
next
  case (Cons c cs)
  show ?case
  proof (cases "amount_here (c # cs)")
    case None
    with Cons obtain before after where "grouped_amount g" "cs = before @ g @ after" "tail_ar after"
      by auto
    then have "c # cs = (c # before) @ g @ after" by simp
    with \<open>grouped_amount g\<close> \<open>tail_ar after\<close> show ?thesis by blast
  next
    case (Some h)
    with Cons.prems have "h = g" by simp
    with amount_here_sound[OF Some] have "grouped_amount g" "\<exists>after. c # cs = [] @ g @ after \<and> tail_ar after"
      by auto
    then show ?thesis by blast
  qed
qed

subsection \<open>Selecting a session\<close>

lemma num_eqD: "num_eq a b \<Longrightarrow> a = b \<and> a \<noteq> NaN"
  by (cases a; cases b) simp_all

lemma find_session_SomeD:
  assumes "find_session reg amt ph = Some sid"
  shows "\<exists>p. map_of reg sid = Some p \<and> matches amt ph p"
  using assms unfolding find_session_def
  by (auto simp: find_Some_iff split: option.splits)

lemma find_session_None_iff:
  "find_session reg amt ph = None \<longleftrightarrow> (\<forall>k p. map_of reg k = Some p \<longrightarrow> \<not> matches amt ph p)"
proof
  assume "find_session reg amt ph = None"
  then have *: "\<forall>k \<in> set (map fst reg). \<not> (case map_of reg k of None \<Rightarrow> False | Some p \<Rightarrow> matches amt ph p)"
    unfolding find_session_def by (simp add: find_None_iff)
  show "\<forall>k p. map_of reg k = Some p \<longrightarrow> \<not> matches amt ph p"
  proof (intro allI impI)
    fix k p assume kp: "map_of reg k = Some p"
    then have "k \<in> set (map fst reg)" by (metis map_of_SomeD fst_conv image_eqI set_map)
    with * kp show "\<not> matches amt ph p" by auto
  qed
next
  assume "\<forall>k p. map_of reg k = Some p \<longrightarrow> \<not> matches amt ph p"
  then show "find_session reg amt ph = None"
    unfolding find_session_def by (auto simp: find_None_iff split: option.splits)
qed

lemma find_session_first:
  assumes "distinct (map fst reg)" and "find_session reg amt ph = Some sid"
  shows "\<exists>i < length reg. fst (reg ! i) = sid \<and> matches amt ph (snd (reg ! i))
           \<and> (\<forall>j < i. \<not> matches amt ph (snd (reg ! j)))"
proof -
  let ?P = "\<lambda>k. case map_of reg k of None \<Rightarrow> False | Some p \<Rightarrow> matches amt ph p"
  have at: "map_of reg (fst (reg ! j)) = Some (snd (reg ! j))" if "j < length reg" for j
    using assms(1) that by (metis map_of_is_SomeI nth_mem prod.collapse)
  from assms(2) obtain i where i: "i < length reg" "?P (map fst reg ! i)" "sid = map fst reg ! i"
    "\<forall>j < i. \<not> ?P (map fst reg ! j)"
    unfolding find_session_def find_Some_iff by auto
  have "matches amt ph (snd (reg ! i))" using i(1,2) at[of i] by simp
  moreover have "\<not> matches amt ph (snd (reg ! j))" if "j < i" for j
  proof -
    from that i(1) have "j < length reg" by simp
    from at[OF this] i(4) that i(1) show ?thesis by force
  qed
  ultimately show ?thesis using i(1,3) by auto
qed

lemma select_session_InrD:
  assumes "select_session sender message st = Inr sid"
  shows "sid \<noteq> [] \<and> (\<exists>p. map_of (pendingPayments st) sid = Some p \<and> status p = PENDING \<and> amount p \<noteq> NaN)"
proof -
  from assms obtain amt ph where "find_session (pendingPayments st) amt ph = Some sid" and "sid \<noteq> []"
    unfolding select_session_def
    by (auto split: if_splits jsval.splits option.splits sum.splits bool.splits)
  then show ?thesis
    using find_session_SomeD[of "pendingPayments st" amt ph sid]
    by (cases amt) (auto simp: matches_def)
qed

lemma select_session_InlD:
  assumes "select_session sender message st = Inl r"
  shows "r = Status200 \<or>
         (r = Uncaught \<and> truthy sender \<and> truthy message \<and>
          (test_mvola sender = Inl TypeError \<or>
           (test_mvola sender = Inr True \<and> (\<forall>s. message \<noteq> JStr s))))"
  using assms unfolding select_session_def
  by (cases message) (auto split: if_splits option.splits sum.splits bool.splits)

lemma parse_confirmation_select:
  "select_session sender message st =
     (if \<not> truthy sender \<or> \<not> truthy message \<or> test_mvola sender = Inr False then Inl Status200
      else if test_mvola sender \<noteq> Inr True \<or> (\<forall>s. message \<noteq> JStr s) then Inl Uncaught
      else (case parse_confirmation sender message of
              None \<Rightarrow> Inl Status200
            | Some (amt, ph) \<Rightarrow>
                (case find_session (pendingPayments st) amt ph of
                   None \<Rightarrow> Inl Status200
                 | Some sessionId \<Rightarrow> if sessionId = [] then Inl Status200 else Inr sessionId)))"
  unfolding select_session_def parse_confirmation_def
  by (cases message) (auto split: option.splits sum.splits bool.splits)

lemma select_session_InrD2:
  assumes "select_session sender message st = Inr sid"
  shows "\<exists>amt ph. parse_confirmation sender message = Some (amt, ph)
           \<and> find_session (pendingPayments st) amt ph = Some sid \<and> sid \<noteq> []
           \<and> truthy sender \<and> truthy message \<and> test_mvola sender = Inr True
           \<and> (\<exists>s. message = JStr s)"
  using assms unfolding parse_confirmation_select
  by (auto split: if_splits option.splits)

lemma select_session_flags [simp]:
  "select_session sender message (st\<lparr>reconnecting := b\<rparr>) = select_session sender message st"
  "select_session sender message (st\<lparr>mikrotikReady := b\<rparr>) = select_session sender message st"
  "select_session sender message (st\<lparr>connects := n\<rparr>) = select_session sender message st"
  "select_session sender message (st\<lparr>writes := ws\<rparr>) = select_session sender message st"
  "select_session sender message (st\<lparr>vouchers := vs\<rparr>) = select_session sender message st"
  by (simp_all add: parse_confirmation_select split: option.splits)

subsection \<open>Registry entries under the operations\<close>

lemma map_of_expire:
  "map_of (expire now k reg) k' =
     (if k' = k \<and> (\<exists>p. map_of reg k = Some p \<and> now - createdAt p > 7 * 60 * 1000) then None else map_of reg k')"
  by (auto simp: expire_def delete_conv' split: option.splits)

lemma map_of_fold_expire:
  "map_of (List.fold (expire now) ks reg) k =
     (case map_of reg k of
        None \<Rightarrow> None
      | Some p \<Rightarrow> if k \<in> set ks \<and> now - createdAt p > 7 * 60 * 1000 then None else Some p)"
proof (induction ks arbitrary: reg)
  case Nil
  then show ?case by (simp split: option.splits)
next
  case (Cons a ks)
  show ?case
    by (simp add: Cons.IH map_of_expire split: option.splits)
qed

lemma map_of_sweep:
  "map_of (pendingPayments (sweep now st)) k =
     (case map_of (pendingPayments st) k of
        None \<Rightarrow> None
      | Some p \<Rightarrow> if now - createdAt p > 7 * 60 * 1000 then None else Some p)"
proof -
  have "map_of (pendingPayments st) k = Some p \<Longrightarrow> k \<in> set (map fst (pendingPayments st))" for p
    by (metis map_of_SomeD fst_conv image_eqI set_map)
  then show ?thesis
    unfolding sweep_def by (auto simp: map_of_fold_expire split: option.splits)
qed

lemma map_of_confirm:
  "map_of (pendingPayments (confirm sid st)) k =
     (if k = sid then map_option (\<lambda>p. p\<lparr>status := CONFIRMED\<rparr>) (map_of (pendingPayments st) k)
      else map_of (pendingPayments st) k)"
  by (auto simp: confirm_def map_of_map_entry split: option.splits)

lemma map_of_settle:
  "map_of (pendingPayments (settle sid r st)) k =
     (if k = sid then None else map_of (pendingPayments st) k)"
  by (auto simp: settle_def delete_conv' Let_def split: option.splits)

lemma ensureMikrotik_frame:
  "pendingPayments (snd (ensureMikrotik ok st)) = pendingPayments st"
  "vouchers (snd (ensureMikrotik ok st)) = vouchers st"
  "writes (snd (ensureMikrotik ok st)) = writes st"
  by (simp_all add: ensureMikrotik_def connectMikrotik_def connect_begin_def connect_end_def Let_def)

lemma generateVoucher_frame:
  "pendingPayments (snd (generateVoucher x u pw profile st)) = pendingPayments st"
  "vouchers (snd (generateVoucher x u pw profile st)) = vouchers st"
  by (simp_all add: generateVoucher_def ensureMikrotik_def connectMikrotik_def connect_begin_def
      connect_end_def send_def safeDisconnect_def Let_def split: prod.splits bool.splits)

lemma sms_incoming_issue:
  assumes "select_session sender message st = Inr sid"
    and "map_of (pendingPayments st) sid = Some p"
    and "profile_of (offer p) = Inr (Some profile)"
  shows "sms_incoming x sender message u pw st =
     (Status200,
      settle sid (fst (generateVoucher x u pw profile (confirm sid st)))
        (snd (generateVoucher x u pw profile (confirm sid st))))"
  using assms by (simp add: sms_incoming_def Let_def split: prod.splits)

text \<open>The answer of an intake call.\<close>

lemma ussd_init_reply:
  "fst (ussd_init ph amt off sid rf now st) =
     (if \<not> truthy ph \<or> \<not> truthy amt \<or> \<not> truthy off then BadRequest
      else if (\<exists>p. ph = JStr p) \<and> js_Number amt \<noteq> Inl TypeError then Created sid rf
      else Uncaught)"
  by (cases ph; cases "js_Number amt") (simp_all add: ussd_init_def)

text \<open>The requests that the confirmation handler leaves without an answer.\<close>

lemma sms_incoming_reply:
  "fst (sms_incoming x sender message u pw st) =
     (if truthy sender \<and> truthy message \<and>
         (test_mvola sender = Inl TypeError
          \<or> (test_mvola sender = Inr True \<and> (\<forall>s. message \<noteq> JStr s))
          \<or> (\<exists>sid p. select_session sender message st = Inr sid
                \<and> map_of (pendingPayments st) sid = Some p
                \<and> profile_of (offer p) = Inl TypeError))
      then Uncaught else Status200)"
proof (cases "select_session sender message st")
  case (Inl r)
  from select_session_InlD[OF Inl] Inl show ?thesis
    by (auto simp: sms_incoming_def parse_confirmation_select split: if_splits)
next
  case (Inr sid)
  from select_session_InrD[OF Inr] obtain p where p: "map_of (pendingPayments st) sid = Some p"
    by blast
  from select_session_InrD2[OF Inr] have ok: "truthy sender" "truthy message"
    "test_mvola sender = Inr True" "\<exists>s. message = JStr s" by auto
  show ?thesis
    using Inr p ok
    by (auto simp: sms_incoming_def Let_def split: sum.splits option.splits prod.splits)
qed

subsection \<open>The two forms of an issuance agree\<close>

lemma issue_begin_cases:
  "issue_begin c st =
     (if mikrotikReady st then (Await AwaitWrite1, send c st)
      else if reconnecting st then (Finished None, st)
      else (Await AwaitConnect1, st\<lparr>reconnecting := True, connects := Suc (connects st)\<rparr>))"
  by (simp add: issue_begin_def ensure_begin_def connect_begin_def)

lemma issue_resume_cases:
  "issue_resume ok sg c st =
     (case sg of
        AwaitConnect1 \<Rightarrow>
          if ok then (Await AwaitWrite1, send c (connect_end True st))
          else (Finished None, connect_end False st)
      | AwaitWrite1 \<Rightarrow>
          if ok then (Finished (Some (voucher_of c)), st)
          else if reconnecting st then (Finished None, safeDisconnect st)
          else (Await AwaitConnect2,
                st\<lparr>mikrotikReady := False, reconnecting := True, connects := Suc (connects st)\<rparr>)
      | AwaitConnect2 \<Rightarrow>
          if ok then (Await AwaitWrite2, send c (connect_end True st))
          else (Finished None, connect_end False st)
      | AwaitWrite2 \<Rightarrow> (Finished (if ok then Some (voucher_of c) else None), st))"
  by (cases sg)
     (auto simp: issue_resume_def ensure_begin_def connect_begin_def connect_end_def
        safeDisconnect_def Let_def)

lemma generateVoucher_drive:
  "drive 4 x (AddUser (''SD-'' @ u) pw profile) (issue_begin (AddUser (''SD-'' @ u) pw profile) st)
     = Some (generateVoucher x u pw profile st)"
  by (cases "mikrotikReady st"; cases "reconnecting st"; cases "connect1 x"; cases "write1 x";
      cases "connect2 x"; cases "write2 x")
     (simp_all add: numeral_eq_Suc issue_begin_cases issue_resume_cases generateVoucher_def
        ensureMikrotik_def connectMikrotik_def connect_begin_def connect_end_def send_def
        safeDisconnect_def voucher_of_def Let_def)

subsection \<open>The connection guard is an invariant\<close>

lemma count_replace:
  assumes "i < length xs"
  shows "length (filter P (take i xs @ y # drop (Suc i) xs)) + (if P (xs ! i) then 1 else 0)
       = length (filter P xs) + (if P y then 1 else 0)"
proof -
  have "filter P xs = filter P (take i xs @ xs ! i # drop (Suc i) xs)"
    using id_take_nth_drop[OF assms] by simp
  then show ?thesis by simp
qed

lemma count_remove:
  assumes "i < length xs"
  shows "length (filter P (take i xs @ drop (Suc i) xs)) + (if P (xs ! i) then 1 else 0)
       = length (filter P xs)"
proof -
  have "filter P xs = filter P (take i xs @ xs ! i # drop (Suc i) xs)"
    using id_take_nth_drop[OF assms] by simp
  then show ?thesis by simp
qed

lemma flags_frame [simp]:
  "mikrotikReady (settle sid r st) = mikrotikReady st"
  "reconnecting (settle sid r st) = reconnecting st"
  "mikrotikReady (confirm sid st) = mikrotikReady st"
  "reconnecting (confirm sid st) = reconnecting st"
  "mikrotikReady (sweep now st) = mikrotikReady st"
  "reconnecting (sweep now st) = reconnecting st"
  "mikrotikReady (send c st) = mikrotikReady st"
  "reconnecting (send c st) = reconnecting st"
  "mikrotikReady (snd (ussd_init ph amt off sid rf now st)) = mikrotikReady st"
  "reconnecting (snd (ussd_init ph amt off sid rf now st)) = reconnecting st"
  by (simp_all add: settle_def confirm_def sweep_def send_def ussd_init_def Let_def
      split: option.splits jsval.splits sum.splits)

lemma guarded_boot: "guarded boot"
  by (simp add: guarded_def boot_def initial_def in_flight_def)

lemma guarded_bare_connect: "guarded rt \<Longrightarrow> guarded (bare_connect rt)"
  by (auto simp: guarded_def bare_connect_def connect_begin_def in_flight_def split: if_splits)

lemma guarded_sms_begin: "guarded rt \<Longrightarrow> guarded (sms_begin sender message u pw rt)"
  unfolding sms_begin_def
  by (auto simp: guarded_def in_flight_def issue_begin_cases awaits_connect_def Let_def
      split: sum.splits option.splits if_splits)

lemma guarded_resume:
  assumes "guarded rt" and "i < length (issuances rt)"
  shows "guarded (resume i ok rt)"
proof -
  let ?xs = "issuances rt"
  let ?t = "?xs ! i"
  have rm: "length (filter awaits_connect (take i ?xs @ drop (Suc i) ?xs))
      + (if awaits_connect ?t then 1 else 0) = length (filter awaits_connect ?xs)"
    by (rule count_remove[OF assms(2)])
  have rp: "length (filter awaits_connect (take i ?xs @ y # drop (Suc i) ?xs))
      + (if awaits_connect ?t then 1 else 0)
      = length (filter awaits_connect ?xs) + (if awaits_connect y then 1 else 0)" for y
    by (rule count_replace[OF assms(2)])
  show ?thesis
  proof (cases "stage ?t")
    case AwaitConnect1
    then have a: "awaits_connect ?t" by (simp add: awaits_connect_def)
    with rm rp[of "?t\<lparr>stage := AwaitWrite1\<rparr>"] assms(1) AwaitConnect1 show ?thesis
      by (auto simp: guarded_def in_flight_def resume_def issue_resume_cases connect_end_def
          awaits_connect_def Let_def simp del: length_0_conv split: if_splits)
  next
    case AwaitWrite1
    then have a: "\<not> awaits_connect ?t" by (simp add: awaits_connect_def)
    with rm rp[of "?t\<lparr>stage := AwaitConnect2\<rparr>"] assms(1) AwaitWrite1 show ?thesis
      by (auto simp: guarded_def in_flight_def resume_def issue_resume_cases safeDisconnect_def
          awaits_connect_def Let_def simp del: length_0_conv split: if_splits)
  next
    case AwaitConnect2
    then have a: "awaits_connect ?t" by (simp add: awaits_connect_def)
    with rm rp[of "?t\<lparr>stage := AwaitWrite2\<rparr>"] assms(1) AwaitConnect2 show ?thesis
      by (auto simp: guarded_def in_flight_def resume_def issue_resume_cases connect_end_def
          awaits_connect_def Let_def simp del: length_0_conv split: if_splits)
  next
    case AwaitWrite2
    then have a: "\<not> awaits_connect ?t" by (simp add: awaits_connect_def)
    with rm assms(1) AwaitWrite2 show ?thesis
      by (auto simp: guarded_def in_flight_def resume_def issue_resume_cases
          awaits_connect_def Let_def simp del: length_0_conv split: if_splits)
  qed
qed

lemma guarded_step: "guarded rt \<Longrightarrow> guarded (step ev rt)"
proof (cases ev)
  case Listen
  then show "guarded rt \<Longrightarrow> guarded (step ev rt)" by (simp add: guarded_bare_connect)
next
  case (UssdInit ph amt off sid rf now)
  then show "guarded rt \<Longrightarrow> guarded (step ev rt)" by (simp add: guarded_def in_flight_def)
next
  case (SmsIncoming sender message u pw)
  then show "guarded rt \<Longrightarrow> guarded (step ev rt)" by (simp add: guarded_sms_begin)
next
  case (ConnectSettled who ok)
  show "guarded rt \<Longrightarrow> guarded (step ev rt)"
  proof (cases who)
    case None
    assume g: "guarded rt"
    show ?thesis
    proof (cases "bare rt = 0")
      case True
      with g None ConnectSettled show ?thesis by simp
    next
      case False
      with g have "reconnecting (core rt)" "in_flight rt = 1"
        by (auto simp: guarded_def in_flight_def split: if_splits)
      with False None ConnectSettled show ?thesis
        by (simp add: guarded_def in_flight_def connect_end_def del: length_0_conv)
    qed
  next
    case (Some i)
    assume "guarded rt"
    with Some ConnectSettled show ?thesis by (simp add: guarded_resume)
  qed
next
  case (WriteSettled i ok)
  then show "guarded rt \<Longrightarrow> guarded (step ev rt)" by (simp add: guarded_resume)
next
  case MikrotikError
  then show "guarded rt \<Longrightarrow> guarded (step ev rt)"
    by (auto simp: guarded_def in_flight_def safeDisconnect_def Let_def)
next
  case TimerFired
  then show "guarded rt \<Longrightarrow> guarded (step ev rt)"
    using guarded_bare_connect[of "rt\<lparr>timers := timers rt - 1\<rparr>"]
    by (auto simp: guarded_def in_flight_def)
next
  case (SweepTick now)
  then show "guarded rt \<Longrightarrow> guarded (step ev rt)" by (simp add: guarded_def in_flight_def)
qed

lemma guarded_run: "guarded rt \<Longrightarrow> guarded (run evs rt)"
  unfolding run_def by (induction evs arbitrary: rt) (simp_all add: guarded_step)

subsection \<open>What an event does to a registry entry\<close>

lemma registry_frame [simp]:
  "pendingPayments (send c st) = pendingPayments st"
  "pendingPayments (safeDisconnect st) = pendingPayments st"
  "pendingPayments (connect_end ok st) = pendingPayments st"
  "pendingPayments (snd (issue_begin c st)) = pendingPayments st"
  "pendingPayments (snd (issue_resume ok sg c st)) = pendingPayments st"
  by (simp_all add: send_def safeDisconnect_def connect_end_def issue_begin_cases
      issue_resume_cases split: stage.splits)

lemma issue_begin_registry:
  "issue_begin c st = (pg, st1) \<Longrightarrow> pendingPayments st1 = pendingPayments st"
  using registry_frame(4)[of c st] by simp

lemma registry_bare_connect [simp]:
  "pendingPayments (core (bare_connect rt)) = pendingPayments (core rt)"
  by (simp add: bare_connect_def connect_begin_def)

lemma entry_resume:
  "map_of (pendingPayments (core (resume i ok rt))) k =
     (if (\<exists>r st1. issue_resume ok (stage (issuances rt ! i)) (cmd (issuances rt ! i)) (core rt)
                    = (Finished r, st1)) \<and> k = session (issuances rt ! i)
      then None else map_of (pendingPayments (core rt)) k)"
proof (cases "issue_resume ok (stage (issuances rt ! i)) (cmd (issuances rt ! i)) (core rt)")
  case (Pair pg st1)
  have "pendingPayments st1 = pendingPayments (core rt)"
    using registry_frame(5)[of ok "stage (issuances rt ! i)" "cmd (issuances rt ! i)" "core rt"] Pair
    by simp
  with Pair show ?thesis
    by (cases pg) (simp_all add: resume_def Let_def map_of_settle)
qed

lemma entry_sms_begin:
  "map_of (pendingPayments (core (sms_begin sender message u pw rt))) k = Some p' \<Longrightarrow>
     \<exists>p. map_of (pendingPayments (core rt)) k = Some p
         \<and> (p' = p \<or> (p' = p\<lparr>status := CONFIRMED\<rparr> \<and> select_session sender message (core rt) = Inr k))"
  unfolding sms_begin_def
  by (auto simp: Let_def map_of_confirm map_of_settle dest!: issue_begin_registry
      split: sum.splits option.splits prod.splits progress.splits if_splits)

lemma entry_step:
  assumes "map_of (pendingPayments (core (step ev rt))) k = Some p'"
  shows "(\<exists>p. map_of (pendingPayments (core rt)) k = Some p
            \<and> (p' = p \<or> (p' = p\<lparr>status := CONFIRMED\<rparr> \<and> consumed ev rt = Some k)))
         \<or> (\<exists>ph amt off rf now. ev = UssdInit ph amt off k rf now)"
proof (cases ev)
  case (UssdInit ph amt off sid rf now)
  with assms show ?thesis
    by (auto simp: ussd_init_def update_conv' split: if_splits jsval.splits sum.splits)
next
  case (SmsIncoming sender message u pw)
  with assms entry_sms_begin[of sender message u pw rt k p'] show ?thesis by auto
next
  case (ConnectSettled who ok)
  with assms show ?thesis
    by (cases who) (auto simp: entry_resume split: if_splits)
next
  case (WriteSettled i ok)
  with assms show ?thesis by (auto simp: entry_resume split: if_splits)
next
  case (SweepTick now)
  with assms show ?thesis by (auto simp: map_of_sweep split: option.splits if_splits)
next
  case TimerFired
  with assms show ?thesis by (auto split: if_splits)
qed (use assms in \<open>auto simp: Let_def split: if_splits\<close>)

lemma consumed_pending:
  assumes "consumed ev rt = Some sid"
  shows "\<exists>p. map_of (pendingPayments (core rt)) sid = Some p \<and> status p = PENDING"
proof (cases ev)
  case (SmsIncoming sender message u pw)
  with assms have "select_session sender message (core rt) = Inr sid"
    by (auto split: sum.splits)
  from select_session_InrD[OF this] show ?thesis by blast
qed (use assms in simp_all)

lemma consumed_confirmed:
  assumes "consumed ev rt = Some sid"
    and "map_of (pendingPayments (core (step ev rt))) sid = Some p'"
  shows "status p' = CONFIRMED"
proof (cases ev)
  case (SmsIncoming sender message u pw)
  with assms(1) have s: "select_session sender message (core rt) = Inr sid"
    by (auto split: sum.splits)
  from select_session_InrD[OF s] obtain p where p: "map_of (pendingPayments (core rt)) sid = Some p"
    by blast
  from assms(2) show ?thesis
    unfolding SmsIncoming step.simps sms_begin_def s sum.case p option.case
    by (auto simp: Let_def map_of_confirm map_of_settle p dest!: issue_begin_registry
        split: sum.splits option.splits prod.splits progress.splits if_splits)
qed (use assms in simp_all)

lemma created_step:
  "created (ev # evs) = (case ev of UssdInit ph amt off sid rf now \<Rightarrow> [sid] | _ \<Rightarrow> []) @ created evs"
  by (cases ev) simp_all

lemma consumptions_distinct_aux:
  assumes "\<forall>sid \<in> D. \<forall>p. map_of (pendingPayments (core rt)) sid = Some p \<longrightarrow> status p \<noteq> PENDING"
    and "distinct (created evs)"
    and "set (created evs) \<inter> (D \<union> dom (map_of (pendingPayments (core rt)))) = {}"
  shows "distinct (consumptions evs rt) \<and> set (consumptions evs rt) \<inter> D = {}"
  using assms
proof (induction evs arbitrary: rt D)
  case Nil
  then show ?case by simp
next
  case (Cons ev evs)
  let ?rt = "step ev rt"
  let ?C = "case consumed ev rt of None \<Rightarrow> {} | Some sid \<Rightarrow> {sid}"
  have fresh: "\<not> (\<exists>ph amt off rf now. ev = UssdInit ph amt off k rf now)"
    if "k \<in> D \<union> dom (map_of (pendingPayments (core rt))) \<union> set (created evs)" for k
    using that Cons.prems(2,3) by (auto simp: created_step)
  have C_pending: "\<exists>p. map_of (pendingPayments (core rt)) k = Some p \<and> status p = PENDING"
    if "k \<in> ?C" for k
    using that consumed_pending[of ev rt k] by (auto split: option.splits)
  then have C_D: "?C \<inter> D = {}" using Cons.prems(1) by fastforce
  have dead: "\<forall>sid \<in> D \<union> ?C. \<forall>p. map_of (pendingPayments (core ?rt)) sid = Some p
      \<longrightarrow> status p \<noteq> PENDING"
  proof (intro ballI allI impI)
    fix sid p' assume sid: "sid \<in> D \<union> ?C" and p': "map_of (pendingPayments (core ?rt)) sid = Some p'"
    show "status p' \<noteq> PENDING"
    proof (cases "sid \<in> ?C")
      case True
      then have "consumed ev rt = Some sid" by (auto split: option.splits)
      from consumed_confirmed[OF this p'] show ?thesis by simp
    next
      case False
      with sid have d: "sid \<in> D" by simp
      with fresh[of sid] entry_step[OF p'] obtain p where
        "map_of (pendingPayments (core rt)) sid = Some p" "p' = p \<or> p' = p\<lparr>status := CONFIRMED\<rparr>"
        by auto
      with Cons.prems(1) d show ?thesis by auto
    qed
  qed
  have dis: "distinct (created evs)" using Cons.prems(2) by (simp add: created_step)
  have dom': "dom (map_of (pendingPayments (core ?rt)))
      \<subseteq> dom (map_of (pendingPayments (core rt))) \<union> (set (created (ev # evs)) - set (created evs))"
  proof
    fix k assume "k \<in> dom (map_of (pendingPayments (core ?rt)))"
    then obtain p' where "map_of (pendingPayments (core ?rt)) k = Some p'" by auto
    from entry_step[OF this] show
      "k \<in> dom (map_of (pendingPayments (core rt))) \<union> (set (created (ev # evs)) - set (created evs))"
      using Cons.prems(2) by (auto simp: created_step)
  qed
  have C_dom: "?C \<subseteq> dom (map_of (pendingPayments (core rt)))"
    using C_pending by auto
  have sub: "set (created evs) \<subseteq> set (created (ev # evs))" by (auto simp: created_step)
  have inter: "set (created evs) \<inter> ((D \<union> ?C) \<union> dom (map_of (pendingPayments (core ?rt)))) = {}"
    using Cons.prems(3) dom' C_dom sub by blast
  from Cons.IH[OF dead dis inter]
  have ih: "distinct (consumptions evs ?rt)" "set (consumptions evs ?rt) \<inter> (D \<union> ?C) = {}"
    by simp_all
  show ?case
    using ih C_D by (cases "consumed ev rt") auto
qed

subsection \<open>A session that no confirmation can select\<close>

lemma sessions_resume:
  assumes "i < length (issuances rt)"
  shows "session ` set (issuances (resume i ok rt)) \<subseteq> session ` set (issuances rt)"
proof -
  have "set (take i (issuances rt)) \<subseteq> set (issuances rt)"
    "set (drop (Suc i) (issuances rt)) \<subseteq> set (issuances rt)"
    "issuances rt ! i \<in> set (issuances rt)"
    using assms by (auto dest: in_set_takeD in_set_dropD)
  then show ?thesis
    by (cases "issue_resume ok (stage (issuances rt ! i)) (cmd (issuances rt ! i)) (core rt)")
       (auto simp: resume_def Let_def split: progress.splits)
qed

lemma sessions_step:
  "session ` set (issuances (step ev rt))
     \<subseteq> session ` set (issuances rt) \<union> (case consumed ev rt of None \<Rightarrow> {} | Some sid \<Rightarrow> {sid})"
proof (cases ev)
  case (SmsIncoming sender message u pw)
  then show ?thesis
    by (auto simp: sms_begin_def Let_def
        split: sum.splits option.splits prod.splits progress.splits)
next
  case (ConnectSettled who ok)
  then show ?thesis
    using sessions_resume[of _ rt ok]
    by (cases who) (auto simp: bare_connect_def split: if_splits)
next
  case (WriteSettled i ok)
  then show ?thesis using sessions_resume[of i rt ok] by auto
qed (auto simp: bare_connect_def Let_def split: option.splits)

lemma unmatched_step:
  assumes reg: "map_of (pendingPayments (core rt)) sid = Some P"
    and nan: "amount P = NaN"
    and idle: "sid \<notin> session ` set (issuances rt)"
    and other: "\<not> (\<exists>ph amt off rf now. ev = UssdInit ph amt off sid rf now)"
    and young: "\<forall>t. ev = SweepTick t \<longrightarrow> t - createdAt P \<le> 7 * 60 * 1000"
  shows "consumed ev rt \<noteq> Some sid
       \<and> map_of (pendingPayments (core (step ev rt))) sid = Some P
       \<and> sid \<notin> session ` set (issuances (step ev rt))"
proof -
  have c: "consumed ev rt \<noteq> Some sid"
  proof
    assume a: "consumed ev rt = Some sid"
    then obtain sender message u pw where ev: "ev = SmsIncoming sender message u pw"
      by (cases ev) simp_all
    with a have "select_session sender message (core rt) = Inr sid" by (auto split: sum.splits)
    from select_session_InrD[OF this] reg nan show False by auto
  qed
  have s: "sid \<notin> session ` set (issuances (step ev rt))"
    using sessions_step[of ev rt] idle c by (auto split: option.splits)
  have r: "map_of (pendingPayments (core (step ev rt))) sid = Some P"
  proof (cases ev)
    case (UssdInit ph amt off k rf now)
    with other have "k \<noteq> sid" by auto
    with UssdInit reg show ?thesis
      by (auto simp: ussd_init_def update_conv' split: jsval.splits sum.splits)
  next
    case (SmsIncoming sender message u pw)
    with c have n: "select_session sender message (core rt) \<noteq> Inr sid" by (auto split: sum.splits)
    show ?thesis
      unfolding SmsIncoming step.simps sms_begin_def
      using n reg
      by (auto simp: Let_def map_of_confirm map_of_settle dest!: issue_begin_registry
          split: sum.splits option.splits prod.splits progress.splits)
  next
    case (ConnectSettled who ok)
    show ?thesis
    proof (cases who)
      case None
      with ConnectSettled reg show ?thesis by simp
    next
      case (Some i)
      show ?thesis
      proof (cases "i < length (issuances rt)")
        case True
        then have "session (issuances rt ! i) \<noteq> sid" using idle by (metis image_eqI nth_mem)
        with ConnectSettled Some reg show ?thesis by (simp add: entry_resume)
      next
        case False
        with ConnectSettled Some reg show ?thesis by simp
      qed
    qed
  next
    case (WriteSettled i ok)
    show ?thesis
    proof (cases "i < length (issuances rt)")
      case True
      then have "session (issuances rt ! i) \<noteq> sid" using idle by (metis image_eqI nth_mem)
      with WriteSettled reg show ?thesis by (simp add: entry_resume)
    next
      case False
      with WriteSettled reg show ?thesis by simp
    qed
  next
    case (SweepTick now)
    with young reg show ?thesis by (simp add: map_of_sweep)
  qed (use reg in \<open>simp_all add: Let_def\<close>)
  from c r s show ?thesis by simp
qed

lemma absent_never_consumed:
  assumes "map_of (pendingPayments (core rt)) sid = None" and "sid \<notin> set (created evs)"
  shows "sid \<notin> set (consumptions evs rt)"
  using assms
proof (induction evs arbitrary: rt)
  case Nil
  then show ?case by simp
next
  case (Cons ev evs)
  have "consumed ev rt \<noteq> Some sid"
    using consumed_pending[of ev rt sid] Cons.prems(1) by auto
  moreover have "map_of (pendingPayments (core (step ev rt))) sid = None"
  proof (rule ccontr)
    assume "map_of (pendingPayments (core (step ev rt))) sid \<noteq> None"
    then obtain p' where "map_of (pendingPayments (core (step ev rt))) sid = Some p'" by auto
    from entry_step[OF this] Cons.prems show False by (auto simp: created_step)
  qed
  moreover have "sid \<notin> set (created evs)" using Cons.prems(2) by (simp add: created_step)
  ultimately show ?case using Cons.IH by (auto split: option.splits)
qed

lemma unmatched_run:
  assumes "map_of (pendingPayments (core rt)) sid = Some P"
    and "amount P = NaN"
    and "sid \<notin> session ` set (issuances rt)"
    and "sid \<notin> set (created evs)"
  shows "sid \<notin> set (consumptions evs rt)
       \<and> ((\<forall>t. SweepTick t \<in> set evs \<longrightarrow> t - createdAt P \<le> 7 * 60 * 1000)
            \<longrightarrow> map_of (pendingPayments (core (run evs rt))) sid = Some P)"
  using assms
proof (induction evs arbitrary: rt)
  case Nil
  then show ?case by (simp add: run_def)
next
  case (Cons ev evs)
  have other: "\<not> (\<exists>ph amt off rf now. ev = UssdInit ph amt off sid rf now)"
    using Cons.prems(4) by auto
  have rest: "sid \<notin> set (created evs)" using Cons.prems(4) by (simp add: created_step)
  show ?case
  proof (cases "\<forall>t. ev = SweepTick t \<longrightarrow> t - createdAt P \<le> 7 * 60 * 1000")
    case True
    from unmatched_step[OF Cons.prems(1,2,3) other True]
    have st: "consumed ev rt \<noteq> Some sid"
      "map_of (pendingPayments (core (step ev rt))) sid = Some P"
      "sid \<notin> session ` set (issuances (step ev rt))"
      by simp_all
    from Cons.IH[OF st(2) Cons.prems(2) st(3) rest] st(1) show ?thesis
      by (auto simp: run_def split: option.splits)
  next
    case False
    then obtain t where ev: "ev = SweepTick t" and old: "\<not> t - createdAt P \<le> 7 * 60 * 1000"
      by auto
    let ?rt = "step ev rt"
    have gone: "map_of (pendingPayments (core ?rt)) sid = None"
      using ev old Cons.prems(1) by (simp add: map_of_sweep)
    have "sid \<notin> set (consumptions evs ?rt)"
      using gone rest by (rule absent_never_consumed)
    then show ?thesis using ev old by (auto simp: run_def)
  qed
qed

subsection \<open>The registry lists the sessions in the order of their creation\<close>

lemma keys_map_entry: "map fst (AList.map_entry k f xs) = map fst xs"
  by (induction xs) auto

lemma update_fresh: "k \<notin> fst ` set xs \<Longrightarrow> AList.update k v xs = xs @ [(k, v)]"
  by (induction xs) auto

lemma keys_delete: "subseq (map fst (AList.delete k xs)) (map fst xs)"
  by (induction xs) auto

lemma keys_confirm [simp]:
  "map fst (pendingPayments (confirm sid st)) = map fst (pendingPayments st)"
  by (simp add: confirm_def keys_map_entry)

lemma keys_settle: "subseq (map fst (pendingPayments (settle sid r st))) (map fst (pendingPayments st))"
  by (simp add: settle_def Let_def keys_delete split: option.splits)

lemma keys_fold_expire: "subseq (map fst (List.fold (expire now) ks reg)) (map fst reg)"
proof (induction ks arbitrary: reg)
  case (Cons k ks)
  have "subseq (map fst (expire now k reg)) (map fst reg)"
    by (simp add: expire_def keys_delete split: option.splits)
  with Cons[of "expire now k reg"] show ?case
    by (auto intro: subseq_order.trans)
qed simp

lemma ussd_init_appends:
  assumes "fst (ussd_init ph amt off sid rf now st) = Created sid rf"
    and "sid \<notin> fst ` set (pendingPayments st)"
  shows "\<exists>p. pendingPayments (snd (ussd_init ph amt off sid rf now st)) = pendingPayments st @ [(sid, p)]"
  using assms
  by (auto simp: ussd_init_def update_fresh split: if_splits jsval.splits sum.splits)

lemma keys_ussd_init:
  "subseq (map fst (pendingPayments (snd (ussd_init ph amt off sid rf now st))))
     (map fst (pendingPayments st) @ [sid])"
  by (auto simp: ussd_init_def update_keys split: jsval.splits sum.splits)

lemma keys_sms_begin:
  "subseq (map fst (pendingPayments (core (sms_begin sender message u pw rt))))
     (map fst (pendingPayments (core rt)))"
proof -
  have "subseq (map fst (pendingPayments (settle sid r st2))) (map fst (pendingPayments (core rt)))"
    if "issue_begin c (confirm sid (core rt)) = (pg, st2)" for c sid pg st2 r
    using keys_settle[of sid r st2] issue_begin_registry[OF that] by simp
  moreover have "map fst (pendingPayments st2) = map fst (pendingPayments (core rt))"
    if "issue_begin c (confirm sid (core rt)) = (pg, st2)" for c sid pg st2
    using issue_begin_registry[OF that] by simp
  ultimately show ?thesis
    unfolding sms_begin_def
    by (auto simp: Let_def split: sum.splits option.splits prod.splits progress.splits)
qed

lemma keys_resume:
  "subseq (map fst (pendingPayments (core (resume i ok rt)))) (map fst (pendingPayments (core rt)))"
proof (cases "issue_resume ok (stage (issuances rt ! i)) (cmd (issuances rt ! i)) (core rt)")
  case (Pair pg st1)
  have "pendingPayments st1 = pendingPayments (core rt)"
    using registry_frame(5)[of ok "stage (issuances rt ! i)" "cmd (issuances rt ! i)" "core rt"] Pair
    by simp
  with Pair keys_settle[of "session (issuances rt ! i)" _ st1] show ?thesis
    by (cases pg) (simp_all add: resume_def Let_def)
qed

lemma keys_step:
  "subseq (map fst (pendingPayments (core (step ev rt))))
     (map fst (pendingPayments (core rt)) @ created [ev])"
proof (cases ev)
  case (UssdInit ph amt off sid rf now)
  then show ?thesis using keys_ussd_init[of ph amt off sid rf now "core rt"] by simp
next
  case (SmsIncoming sender message u pw)
  then show ?thesis using keys_sms_begin[of sender message u pw rt] by simp
next
  case (ConnectSettled who ok)
  then show ?thesis using keys_resume[of _ ok rt] by (cases who) auto
next
  case (WriteSettled i ok)
  then show ?thesis using keys_resume[of i ok rt] by auto
next
  case (SweepTick now)
  then show ?thesis by (simp add: sweep_def keys_fold_expire)
qed (auto simp: Let_def)

lemma registry_in_creation_order:
  "subseq (map fst (pendingPayments (core (run evs rt))))
     (map fst (pendingPayments (core rt)) @ created evs)"
proof (induction evs arbitrary: rt)
  case Nil
  then show ?case by (simp add: run_def)
next
  case (Cons ev evs)
  have "subseq (map fst (pendingPayments (core (run evs (step ev rt)))))
     (map fst (pendingPayments (core (step ev rt))) @ created evs)"
    by (rule Cons.IH)
  also have "subseq (map fst (pendingPayments (core (step ev rt))) @ created evs)
     ((map fst (pendingPayments (core rt)) @ created [ev]) @ created evs)"
    using keys_step[of ev rt] by (simp only: subseq_append_iff) blast
  also have "(map fst (pendingPayments (core rt)) @ created [ev]) @ created evs
      = map fst (pendingPayments (core rt)) @ created (ev # evs)"
    by (cases ev) simp_all
  finally show ?case by (simp add: run_def)
qed

subsection \<open>The scenarios, evaluated\<close>

lemma example_amount: "amountMatch example_message = Some ''1000''"
  unfolding example_message_def by code_simp

lemma example_phone: "phoneMatch example_message = Some ''0321234567''"
  unfolding example_message_def by code_simp

lemma amount_1000: "amount_of_group ''1000'' = Fin 1000"
proof -
  have "list_all is_digit ''1000''" by (simp add: is_digit_def)
  then have "str_to_number ''1000'' = round_double (of_nat (based_value 10 ''1000''))"
    by (intro str_to_number_digits) simp_all
  also have "based_value 10 ''1000'' = 1000"
    by (simp add: based_value_def digit_val_def digit_table_def)
  also have "round_double (of_nat 1000) = Fin 1000" using round_double_nat[of 1000] by simp
  finally show ?thesis by (simp add: amount_of_group_def)
qed

lemma amount_1_000: "amount_of_group ''1,000'' = Fin 1000"
proof -
  have "grouped_amount ''1,000''" by (simp add: grouped_amount_def is_digit_def)
  from amount_of_grouped[OF this]
  have "amount_of_group ''1,000'' = round_double (of_nat (based_value 10 ''1000''))"
    by (simp add: is_digit_def)
  also have "based_value 10 ''1000'' = 1000"
    by (simp add: based_value_def digit_val_def digit_table_def)
  also have "round_double (of_nat 1000) = Fin 1000" using round_double_nat[of 1000] by simp
  finally show ?thesis .
qed

lemma str_to_number_1000: "str_to_number ''1000'' = Fin 1000"
  using amount_1000 by (simp add: amount_of_group_def)

lemma str_to_number_object: "str_to_number ''[object Object]'' = NaN"
  by code_simp

lemma number_to_string_1000: "number_to_string (Fin 1000) = ''1000''"
  by code_simp

text \<open>Arrays and objects in the place of a sender, an amount or an offer.\<close>

lemma array_conversions:
  "to_string (JArr [JStr ''1h'']) = Inr ''1h''"
  "to_string (JArr [JStr ''mvola'', JNum (Fin 1000), JNull, JArr [JBool True, JObj []]])
     = Inr ''mvola,1000,,true,[object Object]''"
  "to_string (JArr [JObj [(''toString'', JNum (Fin 1))]]) = Inl TypeError"
  "js_Number (JArr [JNum (Fin 1000)]) = Inr (Fin 1000)"
  "js_Number (JObj []) = Inr NaN"
  "profile_of (JArr [JStr ''1h'']) = Inr (Some (Profile ''1Heure''))"
  "test_mvola (JArr [JStr ''MVola'']) = Inr True"
  by (simp_all add: number_to_string_1000 str_to_number_1000 str_to_number_object profile_of_def
      profileMap_def test_mvola_def del: number_to_string.simps)

lemma tail_ar_example: "tail_ar ('' Ar'' @ post)"
  by (simp add: tail_ar_def strip_space_sep)

lemma not_a_number: "str_to_number ''abc'' = NaN"
  by code_simp

lemma example_normalized:
  "normalizePhone ''0321234567'' = ''321234567''" "normalizePhone ''032 12 345 67'' = ''321234567''"
  by (simp_all add: normalizePhone_def is_digit_def)

lemma example_select:
  "select_session (JStr ''MVOLA'') (JStr example_message) st =
     (case find_session (pendingPayments st) (Fin 1000) ''321234567'' of
        None \<Rightarrow> Inl Status200
      | Some sessionId \<Rightarrow> if sessionId = [] then Inl Status200 else Inr sessionId)"
proof -
  have "example_message \<noteq> []" by (simp add: example_message_def)
  then show ?thesis
    unfolding select_session_def
    by (simp add: example_amount example_phone amount_1000 example_normalized)
qed

lemma example_parse:
  "parse_confirmation (JStr ''MVOLA'') (JStr example_message) = Some (Fin 1000, ''321234567'')"
  by (simp add: parse_confirmation_def example_amount example_phone amount_1000 example_normalized)

lemma one_pending_eq:
  "one_pending =
     \<lparr>pendingPayments =
        [(''S-1'', \<lparr>phone = ''321234567'', amount = Fin 1000, offer = JStr ''1h'', ref = ''AB12CD'',
                   status = PENDING, createdAt = 0\<rparr>)],
      vouchers = [], mikrotikReady = False, reconnecting = False, connects = 0, writes = []\<rparr>"
  by (simp add: one_pending_def ussd_init_def initial_def example_normalized)

lemma one_pending_select:
  "select_session (JStr ''MVOLA'') (JStr example_message) one_pending = Inr ''S-1''"
  by (simp add: example_select one_pending_eq find_session_def matches_def)

lemma two_pending_eq:
  "two_pending =
     \<lparr>pendingPayments =
        [(''S-1'', \<lparr>phone = ''321234567'', amount = Fin 1000, offer = JStr ''1h'', ref = ''AB12CD'',
                   status = PENDING, createdAt = 0\<rparr>),
         (''S-2'', \<lparr>phone = ''321234567'', amount = Fin 1000, offer = JStr ''5h'', ref = ''EF34GH'',
                   status = PENDING, createdAt = 1000\<rparr>)],
      vouchers = [], mikrotikReady = False, reconnecting = False, connects = 0, writes = []\<rparr>"
  by (simp add: two_pending_def one_pending_eq ussd_init_def example_normalized)

lemma unmapped_pending_eq:
  "unmapped_pending =
     \<lparr>pendingPayments =
        [(''S-1'', \<lparr>phone = ''321234567'', amount = Fin 1000, offer = JStr ''2h'', ref = ''AB12CD'',
                   status = PENDING, createdAt = 0\<rparr>)],
      vouchers = [], mikrotikReady = False, reconnecting = False, connects = 0, writes = []\<rparr>"
  by (simp add: unmapped_pending_def ussd_init_def initial_def example_normalized)

lemma unmapped_pending_select:
  "select_session (JStr ''MVOLA'') (JStr example_message) unmapped_pending = Inr ''S-1''"
  by (simp add: example_select unmapped_pending_eq find_session_def matches_def)

lemma object_offer_pending_eq:
  "object_offer_pending =
     \<lparr>pendingPayments =
        [(''S-1'', \<lparr>phone = ''321234567'', amount = Fin 1000,
                   offer = JObj [(''toString'', JNum (Fin 1))], ref = ''AB12CD'',
                   status = PENDING, createdAt = 0\<rparr>)],
      vouchers = [], mikrotikReady = False, reconnecting = False, connects = 0, writes = []\<rparr>"
  by (simp add: object_offer_pending_def ussd_init_def initial_def example_normalized)

lemma object_offer_pending_select:
  "select_session (JStr ''MVOLA'') (JStr example_message) object_offer_pending = Inr ''S-1''"
  by (simp add: example_select object_offer_pending_eq find_session_def matches_def)

lemma array_offer_pending_eq:
  "array_offer_pending =
     \<lparr>pendingPayments =
        [(''S-1'', \<lparr>phone = ''321234567'', amount = Fin 1000, offer = JArr [JStr ''1h''],
                   ref = ''AB12CD'', status = PENDING, createdAt = 0\<rparr>)],
      vouchers = [], mikrotikReady = False, reconnecting = False, connects = 0, writes = []\<rparr>"
  by (simp add: array_offer_pending_def ussd_init_def initial_def example_normalized)

text \<open>The offer \<^verbatim>\<open>["1h"]\<close> has the property key \<^verbatim>\<open>1h\<close>: its session gets a voucher.\<close>

lemma array_offer_issued:
  "sms_incoming all_ok (JStr ''MVOLA'') (JStr example_message) ''abcde'' ''123456'' array_offer_pending
     = (Status200,
        \<lparr>pendingPayments = [],
         vouchers = [(''S-1'', \<lparr>username = ''SD-abcde'', password = ''123456''\<rparr>)],
         mikrotikReady = True, reconnecting = False, connects = 1,
         writes = [AddUser ''SD-abcde'' ''123456'' (Profile ''1Heure'')]\<rparr>)"
proof -
  have s: "select_session (JStr ''MVOLA'') (JStr example_message) array_offer_pending = Inr ''S-1''"
    by (simp add: example_select array_offer_pending_eq find_session_def matches_def)
  show ?thesis
    by (simp add: sms_incoming_def s)
       (simp add: array_offer_pending_eq array_conversions confirm_def generateVoucher_def
          ensureMikrotik_def connectMikrotik_def connect_begin_def connect_end_def send_def
          all_ok_def settle_def Let_def)
qed

lemma clock_stepped_back_eq:
  "clock_stepped_back =
     \<lparr>pendingPayments =
        [(''S-1'', \<lparr>phone = ''321234567'', amount = Fin 1000, offer = JStr ''1h'', ref = ''AB12CD'',
                   status = PENDING, createdAt = 2000\<rparr>),
         (''S-2'', \<lparr>phone = ''321234567'', amount = Fin 1000, offer = JStr ''5h'', ref = ''EF34GH'',
                   status = PENDING, createdAt = 1000\<rparr>)],
      vouchers = [], mikrotikReady = False, reconnecting = False, connects = 0, writes = []\<rparr>"
  by (simp add: clock_stepped_back_def run_def boot_def initial_def ussd_init_def example_normalized)

lemma confirmed_in_flight_eq:
  "confirmed_in_flight =
     \<lparr>core = \<lparr>pendingPayments =
        [(''S-1'', \<lparr>phone = ''321234567'', amount = Fin 1000, offer = JStr ''1h'', ref = ''AB12CD'',
                   status = CONFIRMED, createdAt = 0\<rparr>)],
      vouchers = [], mikrotikReady = False, reconnecting = True, connects = 1, writes = []\<rparr>,
      issuances = [\<lparr>session = ''S-1'', cmd = AddUser ''SD-abcde'' ''123456'' (Profile ''1Heure''),
                    stage = AwaitConnect1\<rparr>],
      bare = 0, timers = 0\<rparr>"
proof -
  have "step (UssdInit (JStr ''032 12 345 67'') (JNum (Fin 1000)) (JStr ''1h'') ''S-1'' ''AB12CD'' 0) boot
      = \<lparr>core = one_pending, issuances = [], bare = 0, timers = 0\<rparr>"
    by (simp add: boot_def one_pending_def)
  then show ?thesis
    unfolding confirmed_in_flight_def run_def example_sms_def
    by (simp add: sms_begin_def one_pending_select)
       (simp add: one_pending_eq confirm_def profileMap_def issue_begin_def ensure_begin_def
          connect_begin_def)
qed

lemma attempt_in_flight_eq:
  "attempt_in_flight =
     \<lparr>core = one_pending\<lparr>reconnecting := True, connects := 1\<rparr>,
      issuances = [], bare = 1, timers = 0\<rparr>"
  by (simp add: attempt_in_flight_def run_def boot_def one_pending_def[symmetric] bare_connect_def
      connect_begin_def)
     (simp add: one_pending_eq)

subsection \<open>Where \<^verbatim>\<open>src/server.js\<close> differs\<close>

lemma server_amount_example:
  "amountMatch_server ''Vous avez recu 1,000 Ar de (0321234567)'' = Some ''000''"
  by (simp add: amount_here_server_def alt2_lengths_def is_digit_def tail_ar_def strip_space_sep
      strip_space_digit)

lemma server_retry_new_credentials:
  assumes "mikrotikReady st" and "\<not> reconnecting st" and "\<not> write1 x" and "connect2 x"
  shows "writes (snd (generateVoucher_server x u pw u2 pw2 profile st))
           = writes st @ [AddUser (''SD-'' @ u) pw profile, AddUser (''SD-'' @ u2) pw2 profile]"
  using assms
  by (simp add: generateVoucher_server_def connectMikrotik_server_def send_def Let_def)

section \<open>The claims\<close>

text \<open>
  Claim C1, as amended. The registry lists the sessions in the order of their creation: a
  new session goes last (lemma \<open>ussd_init_appends\<close>) and the other operations only change
  or remove entries (lemma \<open>registry_in_creation_order\<close>). Session ids are distinct keys
  of the registry and none is the empty string. A confirmation whose parsed amount and
  normalised phone match some \<^verbatim>\<open>PENDING\<close> session selects the first matching session of
  the registry: the matching session created first. If moreover \<open>createdAt\<close> does not
  decrease along the registry (the clock did not step back between creations), the
  \<open>createdAt\<close> of the selected session is the earliest among all matching sessions.
\<close>

theorem oldest_match_selected:
  assumes "distinct (map fst (pendingPayments st))"
    and "[] \<notin> fst ` set (pendingPayments st)"
    and "parse_confirmation sender message = Some (amt, ph)"
    and "(k, q) \<in> set (pendingPayments st)" and "matches amt ph q"
  shows "\<exists>i < length (pendingPayments st).
           select_session sender message st = Inr (fst (pendingPayments st ! i))
           \<and> matches amt ph (snd (pendingPayments st ! i))
           \<and> (\<forall>j < i. \<not> matches amt ph (snd (pendingPayments st ! j)))
           \<and> (sorted_wrt (\<lambda>a b. createdAt (snd a) \<le> createdAt (snd b)) (pendingPayments st) \<longrightarrow>
                (\<forall>j < length (pendingPayments st).
                    matches amt ph (snd (pendingPayments st ! j)) \<longrightarrow>
                    createdAt (snd (pendingPayments st ! i)) \<le> createdAt (snd (pendingPayments st ! j))))"
proof -
  let ?reg = "pendingPayments st"
  have "map_of ?reg k = Some q" using assms(1,4) by simp
  with assms(5) have "find_session ?reg amt ph \<noteq> None"
    by (auto simp: find_session_None_iff)
  then obtain sid where f: "find_session ?reg amt ph = Some sid" by auto
  from find_session_first[OF assms(1) f] obtain i where
    i: "i < length ?reg" "fst (?reg ! i) = sid" "matches amt ph (snd (?reg ! i))"
      "\<forall>j < i. \<not> matches amt ph (snd (?reg ! j))"
    by blast
  have "(sid, snd (?reg ! i)) \<in> set ?reg" using i(1,2) by (metis nth_mem prod.collapse)
  with assms(2) have "sid \<noteq> []" by force
  have ok: "truthy sender" "test_mvola sender = Inr True" "\<exists>s. message = JStr s \<and> s \<noteq> []"
    using assms(3) unfolding parse_confirmation_def
    by (auto split: if_splits jsval.splits option.splits)
  then have "truthy message" by auto
  with ok assms(3) f \<open>sid \<noteq> []\<close> have sel: "select_session sender message st = Inr sid"
    by (auto simp: parse_confirmation_select)
  have "createdAt (snd (?reg ! i)) \<le> createdAt (snd (?reg ! j))"
    if s: "sorted_wrt (\<lambda>a b. createdAt (snd a) \<le> createdAt (snd b)) ?reg"
      and j: "j < length ?reg" "matches amt ph (snd (?reg ! j))" for j
  proof -
    from i(4) j(2) have "\<not> j < i" by auto
    then consider "j = i" | "i < j" by linarith
    then show ?thesis
    proof cases
      case 1
      then show ?thesis by simp
    next
      case 2
      from sorted_wrt_nth_less[OF s 2 j(1)] show ?thesis .
    qed
  qed
  with sel i show ?thesis by blast
qed

theorem oldest_match_selected_witness:
  "select_session (JStr ''MVOLA'') (JStr example_message) two_pending = Inr ''S-1''
   \<and> map fst (pendingPayments two_pending) = [''S-1'', ''S-2'']
   \<and> map (createdAt \<circ> snd) (pendingPayments two_pending) = [0, 1000]"
proof -
  have a: "distinct (map fst (pendingPayments two_pending))"
    "[] \<notin> fst ` set (pendingPayments two_pending)"
    "(''S-2'', \<lparr>phone = ''321234567'', amount = Fin 1000, offer = JStr ''5h'', ref = ''EF34GH'',
                   status = PENDING, createdAt = 1000\<rparr>) \<in> set (pendingPayments two_pending)"
    "matches (Fin 1000) ''321234567'' \<lparr>phone = ''321234567'', amount = Fin 1000,
        offer = JStr ''5h'', ref = ''EF34GH'', status = PENDING, createdAt = 1000\<rparr>"
    by (simp_all add: two_pending_eq matches_def)
  have m: "matches (Fin 1000) ''321234567'' (snd (pendingPayments two_pending ! 0))"
    by (simp add: two_pending_eq matches_def)
  from oldest_match_selected[OF a(1,2) example_parse a(3,4)]
  obtain i where s: "select_session (JStr ''MVOLA'') (JStr example_message) two_pending
        = Inr (fst (pendingPayments two_pending ! i))"
    and e: "\<forall>j < i. \<not> matches (Fin 1000) ''321234567'' (snd (pendingPayments two_pending ! j))"
    by blast
  from e m have "i = 0" by (cases i) auto
  with s show ?thesis by (simp add: two_pending_eq)
qed

text \<open>
  Claim C1 as stated fails: here both sessions are \<^verbatim>\<open>PENDING\<close> with the same amount and
  phone, \<^verbatim>\<open>S-2\<close> has the earlier \<open>createdAt\<close>, and the confirmation selects \<^verbatim>\<open>S-1\<close>,
  the first key of the registry.
\<close>

theorem insertion_order_counterexample:
  "select_session (JStr ''MVOLA'') (JStr example_message) clock_stepped_back = Inr ''S-1''
   \<and> map_option createdAt (map_of (pendingPayments clock_stepped_back) ''S-1'') = Some 2000
   \<and> map_option createdAt (map_of (pendingPayments clock_stepped_back) ''S-2'') = Some 1000
   \<and> map_option (matches (Fin 1000) ''321234567'')
        (map_of (pendingPayments clock_stepped_back) ''S-2'') = Some True"
  by (simp add: example_select clock_stepped_back_eq find_session_def matches_def)

text \<open>
  Claim C2, as amended. When the first create-user write of an issuance fails, the manager
  is forced disconnected and \<^verbatim>\<open>ensureMikrotik\<close> is called again, which starts a connection
  attempt unless one is in flight. If it returns, the command is sent once more, with the
  same name, password and profile, and never a third time; the voucher is returned exactly
  when that second write succeeds. If \<^verbatim>\<open>ensureMikrotik\<close> throws or the second write fails,
  the failure leaves \<^verbatim>\<open>generateVoucher\<close>, no voucher is stored and the session is removed.
\<close>

theorem retry_once_same_credentials:
  assumes "fst (ensureMikrotik (connect1 x) st)" and "\<not> write1 x"
  shows "connects (snd (generateVoucher x u pw profile st))
           = connects (snd (ensureMikrotik (connect1 x) st))
             + (if reconnecting (snd (ensureMikrotik (connect1 x) st)) then 0 else 1)
       \<and> writes (snd (generateVoucher x u pw profile st))
           = writes st @
             (if \<not> reconnecting (snd (ensureMikrotik (connect1 x) st)) \<and> connect2 x
              then [AddUser (''SD-'' @ u) pw profile, AddUser (''SD-'' @ u) pw profile]
              else [AddUser (''SD-'' @ u) pw profile])
       \<and> fst (generateVoucher x u pw profile st)
           = (if \<not> reconnecting (snd (ensureMikrotik (connect1 x) st)) \<and> connect2 x \<and> write2 x
              then Some \<lparr>username = ''SD-'' @ u, password = pw\<rparr> else None)
       \<and> (fst (generateVoucher x u pw profile st) = None \<longrightarrow>
            vouchers (settle sid None (snd (generateVoucher x u pw profile st))) = vouchers st
            \<and> map_of (pendingPayments (settle sid None (snd (generateVoucher x u pw profile st)))) sid
                = None)"
proof -
  obtain st1 where e: "ensureMikrotik (connect1 x) st = (True, st1)"
    using assms(1) by (cases "ensureMikrotik (connect1 x) st") auto
  have w: "writes st1 = writes st" "vouchers st1 = vouchers st"
    using ensureMikrotik_frame(2,3)[of "connect1 x" st] e by simp_all
  show ?thesis
    unfolding generateVoucher_def e snd_conv
    using assms(2) w
    by (cases "reconnecting st1"; cases "connect2 x"; cases "write2 x")
       (simp_all add: Let_def ensureMikrotik_def connectMikrotik_def connect_begin_def
          connect_end_def send_def safeDisconnect_def settle_def delete_conv')
qed

theorem retry_once_same_credentials_witness:
  "writes (snd (generateVoucher retry_ok ''abcde'' ''123456'' (Profile ''1Heure'') initial))
     = [AddUser ''SD-abcde'' ''123456'' (Profile ''1Heure''),
        AddUser ''SD-abcde'' ''123456'' (Profile ''1Heure'')]
   \<and> fst (generateVoucher retry_ok ''abcde'' ''123456'' (Profile ''1Heure'') initial)
     = Some \<lparr>username = ''SD-abcde'', password = ''123456''\<rparr>
   \<and> connects (snd (generateVoucher retry_ok ''abcde'' ''123456'' (Profile ''1Heure'') initial)) = 2
   \<and> fst (generateVoucher retry_fails ''abcde'' ''123456'' (Profile ''1Heure'') initial) = None
   \<and> writes (snd (generateVoucher retry_fails ''abcde'' ''123456'' (Profile ''1Heure'') initial))
     = [AddUser ''SD-abcde'' ''123456'' (Profile ''1Heure''),
        AddUser ''SD-abcde'' ''123456'' (Profile ''1Heure'')]
   \<and> vouchers (settle ''S-1'' None
        (snd (generateVoucher retry_fails ''abcde'' ''123456'' (Profile ''1Heure'') initial))) = []"
proof -
  have e: "ensureMikrotik True initial
      = (True, initial\<lparr>mikrotikReady := True, reconnecting := False, connects := 1\<rparr>)"
    by (simp add: ensureMikrotik_def connectMikrotik_def connect_begin_def connect_end_def
        initial_def Let_def)
  show ?thesis
    using retry_once_same_credentials[of retry_ok initial "''abcde''" "''123456''"
        "Profile ''1Heure''" "''S-1''"]
      retry_once_same_credentials[of retry_fails initial "''abcde''" "''123456''"
        "Profile ''1Heure''" "''S-1''"]
    by (simp add: retry_ok_def retry_fails_def e) (simp add: initial_def)
qed

text \<open>
  Claim C2 as stated fails: when the first write fails and the reconnection fails too, the
  command is not retried; it has been sent once.
\<close>

theorem no_retry_counterexample:
  "\<not> write1 no_reconnect
   \<and> writes (snd (generateVoucher no_reconnect ''abcde'' ''123456'' (Profile ''1Heure'') initial))
     = [AddUser ''SD-abcde'' ''123456'' (Profile ''1Heure'')]"
  by (simp add: no_reconnect_def generateVoucher_def ensureMikrotik_def connectMikrotik_def
      connect_begin_def connect_end_def send_def safeDisconnect_def initial_def Let_def)

text \<open>
  Claim C3, as amended. When a confirmation selects a \<^verbatim>\<open>PENDING\<close> session whose offer
  resolves to a profile, the handler answers 200 and the session is no longer in the
  registry afterwards, whether the issuance returned a voucher or threw. If moreover no
  other \<^verbatim>\<open>PENDING\<close> session has the same amount and phone, a second delivery of the same
  confirmation selects nothing and leaves the whole state as it is.
\<close>

theorem matched_session_removed:
  assumes "select_session sender message st = Inr sid"
    and "map_of (pendingPayments st) sid = Some p"
    and "profile_of (offer p) = Inr (Some profile)"
  shows "fst (sms_incoming x sender message u pw st) = Status200
       \<and> map_of (pendingPayments (snd (sms_incoming x sender message u pw st))) sid = None
       \<and> ((\<forall>k q. k \<noteq> sid \<and> map_of (pendingPayments st) k = Some q \<and> status q = PENDING
                  \<and> phone q = phone p \<longrightarrow> \<not> num_eq (amount q) (amount p))
           \<longrightarrow> sms_incoming x' sender message u' pw' (snd (sms_incoming x sender message u pw st))
               = (Status200, snd (sms_incoming x sender message u pw st)))"
proof -
  note pr = assms(3)
  define r where "r = generateVoucher x u pw profile (confirm sid st)"
  define st' where "st' = settle sid (fst r) (snd r)"
  have run: "sms_incoming x sender message u pw st = (Status200, st')"
    using sms_incoming_issue[OF assms(1,2) pr] by (simp add: r_def st'_def)
  have reg: "map_of (pendingPayments st') k =
      (if k = sid then None else map_of (pendingPayments st) k)" for k
    by (simp add: st'_def r_def map_of_settle generateVoucher_frame map_of_confirm)
  from select_session_InrD2[OF assms(1)] obtain amt ph where
    pc: "parse_confirmation sender message = Some (amt, ph)"
    and f: "find_session (pendingPayments st) amt ph = Some sid"
    and ok: "truthy sender" "truthy message" "test_mvola sender = Inr True" "\<exists>s. message = JStr s"
    by blast
  from find_session_SomeD[OF f] assms(2) have m: "matches amt ph p" by simp
  then have pa: "phone p = ph" "amount p = amt" "amt \<noteq> NaN"
    using num_eqD[of "amount p" amt] by (auto simp: matches_def)
  have again: "sms_incoming x' sender message u' pw' st' = (Status200, st')"
    if alone: "\<forall>k q. k \<noteq> sid \<and> map_of (pendingPayments st) k = Some q \<and> status q = PENDING
                  \<and> phone q = phone p \<longrightarrow> \<not> num_eq (amount q) (amount p)"
  proof -
    have "find_session (pendingPayments st') amt ph = None"
      unfolding find_session_None_iff
    proof (intro allI impI)
      fix k q assume "map_of (pendingPayments st') k = Some q"
      then have k: "k \<noteq> sid" "map_of (pendingPayments st) k = Some q"
        by (auto simp: reg split: if_splits)
      with alone pa show "\<not> matches amt ph q" by (auto simp: matches_def)
    qed
    then have "select_session sender message st' = Inl Status200"
      using ok pc by (auto simp: parse_confirmation_select)
    then show ?thesis by (simp add: sms_incoming_def)
  qed
  show ?thesis using run reg[of sid] again by simp
qed

theorem matched_session_removed_witness:
  "fst (sms_incoming retry_fails (JStr ''MVOLA'') (JStr example_message) ''abcde'' ''123456''
          one_pending) = Status200
   \<and> map_of (pendingPayments (snd (sms_incoming retry_fails (JStr ''MVOLA'') (JStr example_message)
          ''abcde'' ''123456'' one_pending))) ''S-1'' = None
   \<and> sms_incoming all_ok (JStr ''MVOLA'') (JStr example_message) ''fghij'' ''654321''
        (snd (sms_incoming retry_fails (JStr ''MVOLA'') (JStr example_message) ''abcde'' ''123456''
          one_pending))
      = (Status200, snd (sms_incoming retry_fails (JStr ''MVOLA'') (JStr example_message) ''abcde''
          ''123456'' one_pending))"
proof -
  have m: "map_of (pendingPayments one_pending) ''S-1'' =
     Some \<lparr>phone = ''321234567'', amount = Fin 1000, offer = JStr ''1h'', ref = ''AB12CD'',
           status = PENDING, createdAt = 0\<rparr>"
    by (simp add: one_pending_eq)
  have pr: "profile_of (offer \<lparr>phone = ''321234567'', amount = Fin 1000, offer = JStr ''1h'',
           ref = ''AB12CD'', status = PENDING, createdAt = 0\<rparr>) = Inr (Some (Profile ''1Heure''))"
    by (simp add: profileMap_def)
  have alone: "\<forall>k q. k \<noteq> ''S-1'' \<and> map_of (pendingPayments one_pending) k = Some q
      \<and> status q = PENDING
      \<and> phone q = phone \<lparr>phone = ''321234567'', amount = Fin 1000, offer = JStr ''1h'',
           ref = ''AB12CD'', status = PENDING, createdAt = 0\<rparr>
      \<longrightarrow> \<not> num_eq (amount q) (amount \<lparr>phone = ''321234567'', amount = Fin 1000,
           offer = JStr ''1h'', ref = ''AB12CD'', status = PENDING, createdAt = 0\<rparr>)"
    by (simp add: one_pending_eq)
  show ?thesis
    using matched_session_removed[OF one_pending_select m pr, of retry_fails "''abcde''" "''123456''"
        all_ok "''fghij''" "''654321''"] alone
    by blast
qed

text \<open>
  Claim C3 as stated fails twice. With two \<^verbatim>\<open>PENDING\<close> sessions for the same amount and
  phone, the second delivery of the same confirmation selects the second session and
  changes the state. With an offer that resolves to no profile, the selected session stays
  in the registry.
\<close>

theorem repeat_delivery_counterexample:
  "select_session (JStr ''MVOLA'') (JStr example_message)
      (snd (sms_incoming all_ok (JStr ''MVOLA'') (JStr example_message) ''abcde'' ''123456''
              two_pending)) = Inr ''S-2''
   \<and> map_option status (map_of (pendingPayments
        (snd (sms_incoming all_ok (JStr ''MVOLA'') (JStr example_message) ''abcde'' ''123456''
                unmapped_pending))) ''S-1'') = Some CONFIRMED"
proof -
  have s: "select_session (JStr ''MVOLA'') (JStr example_message) two_pending = Inr ''S-1''"
    by (simp add: example_select two_pending_eq find_session_def matches_def)
  have m: "map_of (pendingPayments two_pending) ''S-1'' =
     Some \<lparr>phone = ''321234567'', amount = Fin 1000, offer = JStr ''1h'', ref = ''AB12CD'',
           status = PENDING, createdAt = 0\<rparr>"
    by (simp add: two_pending_eq)
  have pr: "profile_of (offer \<lparr>phone = ''321234567'', amount = Fin 1000, offer = JStr ''1h'',
           ref = ''AB12CD'', status = PENDING, createdAt = 0\<rparr>) = Inr (Some (Profile ''1Heure''))"
    by (simp add: profileMap_def)
  have reg: "pendingPayments (snd (sms_incoming all_ok (JStr ''MVOLA'') (JStr example_message)
      ''abcde'' ''123456'' two_pending)) =
      [(''S-2'', \<lparr>phone = ''321234567'', amount = Fin 1000, offer = JStr ''5h'', ref = ''EF34GH'',
                   status = PENDING, createdAt = 1000\<rparr>)]"
    unfolding sms_incoming_issue[OF s m pr]
    by (simp add: settle_def generateVoucher_frame Let_def split: option.splits)
       (simp add: confirm_def two_pending_eq)
  have a: "select_session (JStr ''MVOLA'') (JStr example_message)
      (snd (sms_incoming all_ok (JStr ''MVOLA'') (JStr example_message) ''abcde'' ''123456''
              two_pending)) = Inr ''S-2''"
    by (simp add: example_select reg find_session_def matches_def)
  have b: "sms_incoming all_ok (JStr ''MVOLA'') (JStr example_message) ''abcde'' ''123456''
      unmapped_pending = (Status200, confirm ''S-1'' unmapped_pending)"
    by (simp add: sms_incoming_def unmapped_pending_select)
       (simp add: unmapped_pending_eq profileMap_def object_prototype_keys_def)
  show ?thesis using a by (simp add: b) (simp add: unmapped_pending_eq confirm_def)
qed

text \<open>
  Claim C4, as amended. An intake call fails with the validation error exactly when
  \<^verbatim>\<open>phone\<close>, \<^verbatim>\<open>amount\<close> or \<^verbatim>\<open>offer\<close> is missing or falsy. When the phone is a string and
  \<^verbatim>\<open>Number(amount)\<close> does not throw, every truthy offer, recognised or not and of whatever
  type (a string, a number, an array, an object), is accepted at creation and stored as it
  is. At confirmation the offer is used as a property key of \<^verbatim>\<open>profileMap\<close>: a selected
  session whose offer, converted to a property key, is neither a key of \<^verbatim>\<open>profileMap\<close> nor
  the name of a member inherited from \<^verbatim>\<open>Object.prototype\<close> is rejected silently: the
  answer is 200, the session is marked \<^verbatim>\<open>CONFIRMED\<close> and nothing else changes, so no
  command is sent and no voucher is stored.
\<close>

theorem offer_validation:
  "(fst (ussd_init ph amt off sid rf now st) = BadRequest
      \<longleftrightarrow> \<not> truthy ph \<or> \<not> truthy amt \<or> \<not> truthy off)
   \<and> (truthy (JStr p) \<and> truthy amt \<and> js_Number amt = Inr n \<and> truthy off
      \<longrightarrow> fst (ussd_init (JStr p) amt off sid rf now st) = Created sid rf
          \<and> map_option offer
               (map_of (pendingPayments (snd (ussd_init (JStr p) amt off sid rf now st))) sid)
              = Some off)
   \<and> (select_session sender message st = Inr sessionId
       \<and> map_of (pendingPayments st) sessionId = Some payment
       \<and> to_string (offer payment) = Inr key
       \<and> key \<notin> fst ` set profileMap \<and> key \<notin> set object_prototype_keys
      \<longrightarrow> sms_incoming x sender message u pw st = (Status200, confirm sessionId st))"
proof (intro conjI impI)
  show "fst (ussd_init ph amt off sid rf now st) = BadRequest
      \<longleftrightarrow> \<not> truthy ph \<or> \<not> truthy amt \<or> \<not> truthy off"
    by (cases ph; cases "js_Number amt") (simp_all add: ussd_init_def)
next
  assume a: "truthy (JStr p) \<and> truthy amt \<and> js_Number amt = Inr n \<and> truthy off"
  then show "fst (ussd_init (JStr p) amt off sid rf now st) = Created sid rf"
    by (simp add: ussd_init_def)
  from a show "map_option offer
       (map_of (pendingPayments (snd (ussd_init (JStr p) amt off sid rf now st))) sid) = Some off"
    by (simp add: ussd_init_def update_conv')
next
  assume a: "select_session sender message st = Inr sessionId
       \<and> map_of (pendingPayments st) sessionId = Some payment
       \<and> to_string (offer payment) = Inr key
       \<and> key \<notin> fst ` set profileMap \<and> key \<notin> set object_prototype_keys"
  then have "map_of profileMap key = None" by (simp add: map_of_eq_None_iff)
  with a have "profile_of (offer payment) = Inr None" by (simp add: profile_of_def)
  with a show "sms_incoming x sender message u pw st = (Status200, confirm sessionId st)"
    by (simp add: sms_incoming_def)
qed

theorem offer_validation_witness:
  "fst (ussd_init (JStr ''032 12 345 67'') (JNum (Fin 1000)) JUndefined ''S-1'' ''AB12CD'' 0 initial)
     = BadRequest
   \<and> fst (ussd_init (JStr ''032 12 345 67'') (JNum (Fin 1000)) (JStr ''2h'') ''S-1'' ''AB12CD'' 0 initial)
     = Created ''S-1'' ''AB12CD''
   \<and> sms_incoming all_ok (JStr ''MVOLA'') (JStr example_message) ''abcde'' ''123456'' unmapped_pending
     = (Status200, confirm ''S-1'' unmapped_pending)
   \<and> writes (confirm ''S-1'' unmapped_pending) = [] \<and> vouchers (confirm ''S-1'' unmapped_pending) = []"
proof -
  have m: "map_of (pendingPayments unmapped_pending) ''S-1'' =
     Some \<lparr>phone = ''321234567'', amount = Fin 1000, offer = JStr ''2h'', ref = ''AB12CD'',
           status = PENDING, createdAt = 0\<rparr>"
    by (simp add: unmapped_pending_eq)
  have k: "''2h'' \<notin> fst ` set profileMap \<and> ''2h'' \<notin> set object_prototype_keys"
    by (simp add: profileMap_def object_prototype_keys_def)
  show ?thesis
    using offer_validation[where ph = "JStr ''032 12 345 67''" and amt = "JNum (Fin 1000)"
        and off = JUndefined and sid = "''S-1''" and rf = "''AB12CD''" and now = 0 and st = initial
        and p = "''032 12 345 67''" and n = "Fin 1000"]
      offer_validation[where amt = "JNum (Fin 1000)" and off = "JStr ''2h''" and sid = "''S-1''"
        and rf = "''AB12CD''" and now = 0 and st = initial and p = "''032 12 345 67''"
        and n = "Fin 1000"]
      offer_validation[where amt = "JNum (Fin 1000)"
        and off = "JStr ''2h''" and sid = "''S-1''" and rf = "''AB12CD''" and now = 0
        and p = "''032 12 345 67''" and n = "Fin 1000" and sender = "JStr ''MVOLA''"
        and message = "JStr example_message" and st = unmapped_pending and sessionId = "''S-1''"
        and payment = "\<lparr>phone = ''321234567'', amount = Fin 1000, offer = JStr ''2h'',
           ref = ''AB12CD'', status = PENDING, createdAt = 0\<rparr>" and key = "''2h''"
        and x = all_ok and u = "''abcde''" and pw = "''123456''"]
    by (simp add: unmapped_pending_select m k) (simp add: unmapped_pending_eq confirm_def)
qed

text \<open>
  Claim C4 as stated fails: the unrecognised offer \<^verbatim>\<open>99h\<close> is accepted at creation.
\<close>

theorem unrecognized_offer_counterexample:
  "profile_of (JStr ''99h'') = Inr None
   \<and> fst (ussd_init (JStr ''032 12 345 67'') (JNum (Fin 1000)) (JStr ''99h'') ''S-1'' ''AB12CD'' 0
            initial) = Created ''S-1'' ''AB12CD''"
  by (simp add: ussd_init_def profileMap_def object_prototype_keys_def)

text \<open>
  Claim C5. Along any sequence of events (intake calls, confirmations, settlements of device
  operations, connection errors, timers, sweeper ticks, in any interleaving) in which every
  intake call gets a session id that is not in use, no session is consumed twice: the
  sessions selected and marked \<^verbatim>\<open>CONFIRMED\<close> by the confirmations are pairwise distinct.
  The session a confirmation selects is \<^verbatim>\<open>CONFIRMED\<close> or gone as soon as the handler first
  suspends, so a confirmation handled while that issuance waits for the device cannot select
  it.
\<close>

theorem session_consumed_once:
  assumes "distinct (created evs)"
    and "set (created evs) \<inter> fst ` set (pendingPayments (core rt)) = {}"
  shows "distinct (consumptions evs rt)
       \<and> (\<forall>ev sid. consumed ev rt = Some sid \<longrightarrow>
            (\<exists>p. map_of (pendingPayments (core rt)) sid = Some p \<and> status p = PENDING)
            \<and> (\<forall>p'. map_of (pendingPayments (core (step ev rt))) sid = Some p'
                   \<longrightarrow> status p' = CONFIRMED)
            \<and> (\<forall>ev'. consumed ev' (step ev rt) \<noteq> Some sid))"
proof -
  have "set (created evs) \<inter> ({} \<union> dom (map_of (pendingPayments (core rt)))) = {}"
    using assms(2) by (simp add: dom_map_of_conv_image_fst)
  from consumptions_distinct_aux[OF _ assms(1) this]
  have "distinct (consumptions evs rt)" by simp
  moreover have "consumed ev' (step ev rt) \<noteq> Some sid" if "consumed ev rt = Some sid" for ev ev' sid
  proof
    assume "consumed ev' (step ev rt) = Some sid"
    from consumed_pending[OF this] obtain p' where
      "map_of (pendingPayments (core (step ev rt))) sid = Some p'" "status p' = PENDING"
      by blast
    with consumed_confirmed[OF that] show False by simp
  qed
  ultimately show ?thesis
    using consumed_pending consumed_confirmed by blast
qed

theorem session_consumed_once_witness:
  "distinct (consumptions double_delivery boot) \<and> consumptions double_delivery boot = [''S-1'']"
proof -
  have c: "created double_delivery = [''S-1'']"
    by (simp add: double_delivery_def example_sms_def)
  have "distinct (consumptions double_delivery boot)"
    using session_consumed_once[of double_delivery boot]
    by (simp add: c boot_def initial_def)
  moreover have "consumptions double_delivery boot = [''S-1'']"
  proof -
    have 1: "step (UssdInit (JStr ''032 12 345 67'') (JNum (Fin 1000)) (JStr ''1h'') ''S-1''
        ''AB12CD'' 0) boot = \<lparr>core = one_pending, issuances = [], bare = 0, timers = 0\<rparr>"
      by (simp add: boot_def one_pending_def)
    have 2: "step example_sms \<lparr>core = one_pending, issuances = [], bare = 0, timers = 0\<rparr>
        = confirmed_in_flight"
      by (simp add: confirmed_in_flight_def run_def 1 del: step.simps)
    have 3: "select_session (JStr ''MVOLA'') (JStr example_message) (core confirmed_in_flight)
        = Inl Status200"
      by (simp add: example_select confirmed_in_flight_eq find_session_def matches_def)
    show ?thesis
      unfolding double_delivery_def
      by (simp add: 1 2 del: step.simps) (simp add: example_sms_def one_pending_select 3)
  qed
  ultimately show ?thesis by simp
qed

text \<open>
  Claim C6, as amended. Each sweeper tick removes from the registry every session whose
  age \<open>now - createdAt\<close> exceeds 7 minutes, whatever its status (a \<^verbatim>\<open>CONFIRMED\<close> session
  still in the registry included), keeps every other session as it is, and changes nothing
  else.
\<close>

theorem sweep_removes_by_age:
  "map_of (pendingPayments (sweep now st)) k =
     (case map_of (pendingPayments st) k of
        None \<Rightarrow> None
      | Some p \<Rightarrow> if now - createdAt p > 7 * 60 * 1000 then None else Some p)
   \<and> sweep now st = st\<lparr>pendingPayments := pendingPayments (sweep now st)\<rparr>"
  by (simp add: map_of_sweep) (simp add: sweep_def)

theorem sweep_removes_by_age_witness:
  "map_of (pendingPayments (sweep 420001 one_pending)) ''S-1'' = None
   \<and> map_of (pendingPayments (sweep 420000 one_pending)) ''S-1''
       = map_of (pendingPayments one_pending) ''S-1''"
  using sweep_removes_by_age[of 420001 one_pending "''S-1''"]
    sweep_removes_by_age[of 420000 one_pending "''S-1''"]
  by (simp add: one_pending_eq)

text \<open>
  Claim C6 as stated fails: a session that is \<^verbatim>\<open>CONFIRMED\<close> (its issuance waits for the
  device) and older than 7 minutes is removed by the tick.
\<close>

theorem sweep_spares_confirmed_counterexample:
  "map_option status (map_of (pendingPayments (core confirmed_in_flight)) ''S-1'') = Some CONFIRMED
   \<and> map_of (pendingPayments (core (step (SweepTick 420001) confirmed_in_flight))) ''S-1'' = None"
  by (simp add: confirmed_in_flight_eq map_of_sweep)

text \<open>
  Claim C7, as amended. At any time at most one connection attempt is in flight, and the
  guard flag is set exactly while there is one. When \<^verbatim>\<open>ensureMikrotik\<close> is called while the
  flag is set, \<^verbatim>\<open>connectMikrotik\<close> returns at once without starting a second attempt and
  \<^verbatim>\<open>ensureMikrotik\<close> throws at once: the caller does not wait for the attempt in flight.
\<close>

theorem single_connection_attempt:
  "in_flight (run evs boot) \<le> 1
   \<and> (reconnecting (core (run evs boot)) \<longleftrightarrow> in_flight (run evs boot) = 1)
   \<and> (reconnecting (core (run evs boot)) \<longrightarrow>
        connect_begin (core (run evs boot)) = None
        \<and> ensure_begin (core (run evs boot)) = Inl False
        \<and> ensureMikrotik ok (core (run evs boot)) = (False, core (run evs boot)))"
proof -
  have "guarded (run evs boot)" by (rule guarded_run[OF guarded_boot])
  then show ?thesis
    by (auto simp: guarded_def ensure_begin_def connect_begin_def ensureMikrotik_def
        connectMikrotik_def Let_def split: if_splits)
qed

theorem single_connection_attempt_witness:
  "reconnecting (core (run [Listen] boot)) \<and> in_flight (run [Listen] boot) = 1
   \<and> ensure_begin (core (run [Listen] boot)) = Inl False"
proof -
  have "reconnecting (core (run [Listen] boot))"
    by (simp add: run_def boot_def initial_def bare_connect_def connect_begin_def)
  with single_connection_attempt[of "[Listen]"] show ?thesis by simp
qed

text \<open>
  Claim C7 as stated fails: a confirmation handled while the start-up attempt is in flight
  does not wait for it. Its handler ends at once (no handler is suspended and the session
  is gone), and when the attempt then succeeds no voucher exists.
\<close>

theorem caller_does_not_wait_counterexample:
  "reconnecting (core attempt_in_flight)
   \<and> consumed example_sms attempt_in_flight = Some ''S-1''
   \<and> issuances (step example_sms attempt_in_flight) = []
   \<and> map_of (pendingPayments (core (step example_sms attempt_in_flight))) ''S-1'' = None
   \<and> mikrotikReady (core (run [example_sms, ConnectSettled None True] attempt_in_flight))
   \<and> vouchers (core (run [example_sms, ConnectSettled None True] attempt_in_flight)) = []"
proof -
  have b: "step example_sms attempt_in_flight =
     \<lparr>core = \<lparr>pendingPayments = [], vouchers = [], mikrotikReady = False, reconnecting = True,
              connects = 1, writes = []\<rparr>,
      issuances = [], bare = 1, timers = 0\<rparr>"
    unfolding example_sms_def attempt_in_flight_eq
    by (simp add: sms_begin_def one_pending_select)
       (simp add: one_pending_eq confirm_def profileMap_def issue_begin_cases settle_def)
  show ?thesis
    unfolding run_def
    by (simp add: b connect_end_def)
       (simp add: attempt_in_flight_eq example_sms_def one_pending_select)
qed

text \<open>
  Claim C8. Whatever the amount pattern extracts from a message is a numeric amount,
  possibly with grouping separators, that stands in the message directly before the
  currency marker \<^verbatim>\<open>Ar\<close> (at most one white-space character between them), and the amount
  parsed from it is the number written by its digits, the separators being stripped.
  Conversely such an amount is extracted as it stands when no digit precedes it in the
  message; for example every such message with \<^verbatim>\<open>1,000 Ar\<close> yields the amount 1000. A
  message in which no digit stands directly before the currency marker has no match, and
  the handler changes nothing; it answers 200, unless the sender filter, which runs
  before the message is read, throws (on a sender that has no primitive value, lemma
  \<open>test_mvola_throws\<close>).
\<close>

theorem amount_extraction:
  "(amountMatch msg = Some g \<longrightarrow>
      grouped_amount g \<and> (\<exists>before after. msg = before @ g @ after \<and> tail_ar after)
      \<and> amount_of_group g = round_double (of_nat (based_value 10 (filter is_digit g))))
   \<and> (list_all (\<lambda>c. \<not> is_digit c) pre \<and> grouped_amount g' \<and> tail_ar rest \<longrightarrow>
        amountMatch (pre @ g' @ rest) = Some g')
   \<and> (list_all (\<lambda>c. \<not> is_digit c) pre \<longrightarrow>
        map_option amount_of_group (amountMatch (pre @ ''1,000 Ar'' @ post)) = Some (Fin 1000))
   \<and> (amountMatch msg = None \<longleftrightarrow> \<not> amount_adjacent msg)
   \<and> (\<not> amount_adjacent msg \<longrightarrow>
        sms_incoming x sender (JStr msg) u pw st
          = (if truthy sender \<and> msg \<noteq> [] \<and> test_mvola sender = Inl TypeError then Uncaught
             else Status200, st))"
proof (intro conjI impI)
  assume a: "amountMatch msg = Some g"
  from amountMatch_sound[OF a] show "grouped_amount g"
    and "\<exists>before after. msg = before @ g @ after \<and> tail_ar after"
    by simp_all
  then show "amount_of_group g = round_double (of_nat (based_value 10 (filter is_digit g)))"
    by (simp add: amount_of_grouped)
next
  assume "list_all (\<lambda>c. \<not> is_digit c) pre \<and> grouped_amount g' \<and> tail_ar rest"
  then show "amountMatch (pre @ g' @ rest) = Some g'" by (simp add: amountMatch_grouped)
next
  assume p: "list_all (\<lambda>c. \<not> is_digit c) pre"
  have "grouped_amount ''1,000''" by (simp add: grouped_amount_def is_digit_def)
  from amountMatch_grouped[OF p this tail_ar_example[of post]]
  show "map_option amount_of_group (amountMatch (pre @ ''1,000 Ar'' @ post)) = Some (Fin 1000)"
    by (simp add: amount_1_000)
next
  show none: "amountMatch msg = None \<longleftrightarrow> \<not> amount_adjacent msg"
    using amountMatch_adjacent[of msg] adjacent_amountMatch[of msg]
    by (cases "amountMatch msg") auto
  assume "\<not> amount_adjacent msg"
  with none have "amountMatch msg = None" by simp
  then have "select_session sender (JStr msg) st
      = Inl (if truthy sender \<and> msg \<noteq> [] \<and> test_mvola sender = Inl TypeError then Uncaught
             else Status200)"
    by (cases "test_mvola sender")
       (auto simp: select_session_def split: bool.splits error.splits)
  then show "sms_incoming x sender (JStr msg) u pw st
      = (if truthy sender \<and> msg \<noteq> [] \<and> test_mvola sender = Inl TypeError then Uncaught
         else Status200, st)"
    by (simp add: sms_incoming_def)
qed

theorem amount_extraction_witness:
  "amountMatch ''Vous avez recu 1,000 Ar de (0321234567)'' = Some ''1,000''
   \<and> amount_of_group ''1,000'' = Fin 1000
   \<and> amountMatch ''Vous avez recu 1,000 euros'' = None
   \<and> sms_incoming all_ok (JStr ''MVOLA'') (JStr ''Vous avez recu 1,000 euros'') ''abcde'' ''123456''
        one_pending = (Status200, one_pending)"
proof -
  have p: "list_all (\<lambda>c. \<not> is_digit c) ''Vous avez recu ''" by (simp add: is_digit_def)
  have g: "grouped_amount ''1,000''" by (simp add: grouped_amount_def is_digit_def)
  have t: "tail_ar '' Ar de (0321234567)''" using tail_ar_example[of "'' de (0321234567)''"] by simp
  have n: "\<not> amount_adjacent ''Vous avez recu 1,000 euros''"
    by (simp add: is_digit_def tail_ar_def strip_space_sep strip_space_digit)
  have v: "round_double (of_nat (based_value 10 (filter is_digit ''1,000''))) = Fin 1000"
    using round_double_nat[of 1000]
    by (simp add: is_digit_def based_value_def digit_val_def digit_table_def)
  show ?thesis
    using amount_extraction[of "''Vous avez recu 1,000 Ar de (0321234567)''" "''1,000''"
        "''Vous avez recu ''" "''1,000''" "'' Ar de (0321234567)''" "'' de (0321234567)''"
        all_ok "JStr ''MVOLA''" "''abcde''" "''123456''" one_pending]
      amount_extraction[of "''Vous avez recu 1,000 euros''" "''1,000''"
        "''Vous avez recu ''" "''1,000''" "'' Ar de (0321234567)''" "'' de (0321234567)''"
        all_ok "JStr ''MVOLA''" "''abcde''" "''123456''" one_pending]
      p g t n v
    by simp
qed

text \<open>
  Claim C9 does not hold of the handler. It answers 200 on every path it foresees, but
  three conversions of request data are made outside any \<^verbatim>\<open>try\<close>. A body whose
  \<^verbatim>\<open>message\<close> is the number 5 makes \<^verbatim>\<open>message.match\<close> throw. A \<^verbatim>\<open>sender\<close> object with an own
  \<^verbatim>\<open>toString\<close> property makes \<^verbatim>\<open>/mvola/i.test(sender)\<close> throw. A selected session whose
  offer is such an object makes \<^verbatim>\<open>profileMap[payment.offer]\<close> throw, after the session has
  been marked \<^verbatim>\<open>CONFIRMED\<close>. In each case the exception leaves the handler, which sends no
  answer; lemma \<open>sms_incoming_reply\<close> lists the requests for which this happens.
\<close>

theorem unacknowledged_confirmation:
  "fst (sms_incoming all_ok (JStr ''MVOLA'') (JNum (Fin 5)) ''abcde'' ''123456'' one_pending)
     = Uncaught
   \<and> fst (sms_incoming all_ok (JObj [(''toString'', JNum (Fin 1))]) (JStr example_message)
            ''abcde'' ''123456'' one_pending) = Uncaught
   \<and> sms_incoming all_ok (JStr ''MVOLA'') (JStr example_message) ''abcde'' ''123456''
        object_offer_pending = (Uncaught, confirm ''S-1'' object_offer_pending)"
proof -
  have "sms_incoming all_ok (JStr ''MVOLA'') (JStr example_message) ''abcde'' ''123456''
      object_offer_pending = (Uncaught, confirm ''S-1'' object_offer_pending)"
    by (simp add: sms_incoming_def object_offer_pending_select)
       (simp add: object_offer_pending_eq profile_of_def)
  then show ?thesis
    by (simp add: sms_incoming_def select_session_def test_mvola_def example_message_def)
qed

text \<open>
  Claim C10, as amended. Session creation accepts, without numeric validation, every
  truthy amount that \<^verbatim>\<open>Number\<close> converts without throwing, and stores the result of the
  conversion (\<^verbatim>\<open>Number\<close> throws exactly on the amounts that have no primitive value, lemma
  \<open>js_Number_throws\<close>). For an intake call whose amount is a non-empty string that \<^verbatim>\<open>Number\<close> does
  not read as a number (with a string phone and a truthy offer), the call succeeds and the
  session is stored \<^verbatim>\<open>PENDING\<close> with amount \<^verbatim>\<open>NaN\<close>. Whatever happens afterwards, no
  confirmation ever selects that session, and it stays in the registry unchanged as long
  as no sweeper tick finds it older than 7 minutes. (The session id is not held by a
  suspended handler and is not given to a later intake call.)
\<close>

theorem non_numeric_amount_unmatchable:
  assumes "p \<noteq> []" and "truthy off" and "s \<noteq> []" and "str_to_number s = NaN"
    and "sid \<notin> session ` set (issuances rt)" and "sid \<notin> set (created evs)"
  shows "(\<forall>amt n. truthy amt \<and> js_Number amt = Inr n \<longrightarrow>
            fst (ussd_init (JStr p) amt off sid rf now (core rt)) = Created sid rf
            \<and> map_option amount
                 (map_of (pendingPayments (snd (ussd_init (JStr p) amt off sid rf now (core rt)))) sid)
                = Some n)
       \<and> fst (ussd_init (JStr p) (JStr s) off sid rf now (core rt)) = Created sid rf
       \<and> map_of (pendingPayments (core (step (UssdInit (JStr p) (JStr s) off sid rf now) rt))) sid
           = Some \<lparr>phone = normalizePhone p, amount = NaN, offer = off, ref = rf,
                   status = PENDING, createdAt = now\<rparr>
       \<and> sid \<notin> set (consumptions evs (step (UssdInit (JStr p) (JStr s) off sid rf now) rt))
       \<and> ((\<forall>t. SweepTick t \<in> set evs \<longrightarrow> t - now \<le> 7 * 60 * 1000) \<longrightarrow>
            map_of (pendingPayments
                     (core (run evs (step (UssdInit (JStr p) (JStr s) off sid rf now) rt)))) sid
              = Some \<lparr>phone = normalizePhone p, amount = NaN, offer = off, ref = rf,
                      status = PENDING, createdAt = now\<rparr>)"
proof -
  let ?P = "\<lparr>phone = normalizePhone p, amount = NaN, offer = off, ref = rf,
             status = PENDING, createdAt = now\<rparr>"
  let ?rt = "step (UssdInit (JStr p) (JStr s) off sid rf now) rt"
  have general: "fst (ussd_init (JStr p) amt off sid rf now (core rt)) = Created sid rf
      \<and> map_option amount
           (map_of (pendingPayments (snd (ussd_init (JStr p) amt off sid rf now (core rt)))) sid)
          = Some n" if "truthy amt" "js_Number amt = Inr n" for amt n
    using that assms(1,2) by (simp add: ussd_init_def update_conv')
  have reg: "map_of (pendingPayments (core ?rt)) sid = Some ?P"
    using assms(1-4) by (simp add: ussd_init_def update_conv')
  have idle: "sid \<notin> session ` set (issuances ?rt)" using assms(5) by simp
  from unmatched_run[OF reg _ idle assms(6)]
  have "sid \<notin> set (consumptions evs ?rt)
       \<and> ((\<forall>t. SweepTick t \<in> set evs \<longrightarrow> t - now \<le> 7 * 60 * 1000)
            \<longrightarrow> map_of (pendingPayments (core (run evs ?rt))) sid = Some ?P)"
    by simp
  with general reg assms(3) show ?thesis by simp
qed

theorem non_numeric_amount_unmatchable_witness:
  "fst (ussd_init (JStr ''032 12 345 67'') (JStr ''abc'') (JStr ''1h'') ''S-1'' ''AB12CD'' 0 (core boot))
     = Created ''S-1'' ''AB12CD''
   \<and> ''S-1'' \<notin> set (consumptions [example_sms, SweepTick 420000]
        (step (UssdInit (JStr ''032 12 345 67'') (JStr ''abc'') (JStr ''1h'') ''S-1'' ''AB12CD'' 0) boot))
   \<and> map_of (pendingPayments (core (run [example_sms, SweepTick 420000]
        (step (UssdInit (JStr ''032 12 345 67'') (JStr ''abc'') (JStr ''1h'') ''S-1'' ''AB12CD'' 0) boot))))
        ''S-1''
      = Some \<lparr>phone = ''321234567'', amount = NaN, offer = JStr ''1h'', ref = ''AB12CD'',
              status = PENDING, createdAt = 0\<rparr>"
proof -
  have c: "''S-1'' \<notin> set (created [example_sms, SweepTick 420000])"
    by (simp add: example_sms_def)
  have i: "''S-1'' \<notin> session ` set (issuances boot)" by (simp add: boot_def)
  have t: "\<forall>t. SweepTick t \<in> set [example_sms, SweepTick 420000] \<longrightarrow> t - 0 \<le> 7 * 60 * 1000"
    by (simp add: example_sms_def)
  from non_numeric_amount_unmatchable[OF _ _ _ not_a_number i c,
      of "''032 12 345 67''" "JStr ''1h''" "''AB12CD''" 0] t
  show ?thesis by (simp add: example_normalized del: step.simps)
qed

text \<open>
  Claim C10 as stated fails in its first part: the truthy amount \<^verbatim>\<open>{"toString": 1}\<close> is
  not accepted. \<^verbatim>\<open>Number(amount)\<close> throws and no session is created.
\<close>

theorem object_amount_counterexample:
  "truthy (JObj [(''toString'', JNum (Fin 1))])
   \<and> ussd_init (JStr ''032 12 345 67'') (JObj [(''toString'', JNum (Fin 1))]) (JStr ''1h'')
        ''S-1'' ''AB12CD'' 0 initial = (Uncaught, initial)"
  by (simp add: ussd_init_def)

end
